theory Spec2Isabelle
  imports Main
begin

unbundle bit_operations_syntax

section \<open>Data model of \<open>extendible_hash_table.cpp\<close>\<close>

text \<open>
  A data member \<open>x_\<close> of the source is the field \<open>m_x\<close> here (an Isabelle name cannot
  end in an underscore).
  The class template \<open>ExtendibleHashTable<K, V>\<close> keeps a vector \<open>dir_\<close> of
  \<open>std::shared_ptr<Bucket>\<close>. Several directory slots may hold the same pointer, and the
  code mutates buckets through these pointers, so the buckets live in an explicit store:
  \<open>heap\<close> is the list of all buckets ever allocated, a pointer is \<open>Some a\<close> with \<open>a\<close> an
  index into \<open>heap\<close>, and \<open>None\<close> is the null pointer that \<open>std::vector::resize\<close> puts into
  new slots. \<open>std::make_shared\<close> appends to the store. A bucket that no slot refers to any
  more stays in the store as garbage; nothing reads it.

  Numbers: \<open>size_t\<close> values (hashes, indices, sizes) are modelled by their value as \<open>nat\<close>.
  The depths are \<open>int\<close> in the source; they start at 0 and are only incremented, so they
  are \<open>nat\<close> here, and the one place where the width of \<open>int\<close> matters, the mask
  \<open>(1 << depth) - 1\<close>, is guarded explicitly (see \<open>depth_mask\<close>).
\<close>

record ('k, 'v) Bucket =
  m_size :: nat
  m_depth :: nat
  m_list :: "('k \<times> 'v) list"

type_synonym bucket_ptr = "nat option"

record ('k, 'v) ExtendibleHashTable =
  m_global_depth :: nat
  m_bucket_size :: nat
  m_num_buckets :: nat
  m_dir :: "bucket_ptr list"
  heap :: "('k, 'v) Bucket list"

text \<open>
  The source has no error handling of its own. The places where C++ leaves the behaviour
  undefined are branches of the model, so that no theorem silently relies on them.

  Memory is not bounded in the model: \<open>dir_.resize\<close>, \<open>std::make_shared\<close> and
  \<open>list_.emplace_back\<close> always succeed, whereas a real call is aborted by \<open>std::bad_alloc\<close>
  when the allocation fails. An aborted call is not a completed operation. A result \<open>Inr\<close>
  of the model is what a call returns when it completes; a result \<open>Inl\<close> says that the call
  does not complete with a defined result, and names the undefined step that it reaches
  if no allocation fails before.
\<close>

datatype undefined_behaviour =
  UndefinedShift        \<comment> \<open>\<open>(1 << d) - 1\<close> on \<open>int\<close> with \<open>d \<ge> 31\<close>\<close>
| UndefinedIndexing      \<comment> \<open>\<open>dir_[i]\<close> with \<open>i \<ge> dir_.size()\<close>\<close>
| UndefinedDereference       \<comment> \<open>\<open>p->...\<close> where \<open>p\<close> refers to no bucket\<close>

section \<open>Bucket\<close>

definition Bucket_new :: "nat \<Rightarrow> nat \<Rightarrow> ('k, 'v) Bucket" where
  "Bucket_new array_size depth = \<lparr>m_size = array_size, m_depth = depth, m_list = []\<rparr>"

text \<open>
  Modelled from the spec: the inline members \<open>IsFull\<close>, \<open>GetDepth\<close>, \<open>IncrementDepth\<close> and
  \<open>GetItems\<close> are declared in \<open>extendible_hash_table.h\<close>, which is not among the sources.
  The spec says of the bucket: "if \<open>entries.length == capacity\<close>, reject"; "increment the
  bucket's \<open>localDepth\<close> by exactly 1".
\<close>

definition IsFull :: "('k, 'v) Bucket \<Rightarrow> bool" where
  "IsFull b \<longleftrightarrow> length (m_list b) = m_size b"

definition GetDepth :: "('k, 'v) Bucket \<Rightarrow> nat" where
  "GetDepth b = m_depth b"

definition IncrementDepth :: "('k, 'v) Bucket \<Rightarrow> ('k, 'v) Bucket" where
  "IncrementDepth b = b\<lparr>m_depth := m_depth b + 1\<rparr>"

definition GetItems :: "('k, 'v) Bucket \<Rightarrow> ('k \<times> 'v) list" where
  "GetItems b = m_list b"

text \<open>
  \<open>Bucket::Find(key, value)\<close> writes through the reference \<open>value\<close>; the model takes the
  caller's current \<open>value\<close> and returns the flag together with the content of \<open>value\<close>
  after the call.
\<close>

fun find_scan :: "'k \<Rightarrow> 'v \<Rightarrow> ('k \<times> 'v) list \<Rightarrow> bool \<times> 'v" where
  "find_scan key value [] = (False, value)"
| "find_scan key value (it # rest) =
     (if fst it = key then (True, snd it) else find_scan key value rest)"

definition Bucket_Find :: "'k \<Rightarrow> 'v \<Rightarrow> ('k, 'v) Bucket \<Rightarrow> bool \<times> 'v" where
  "Bucket_Find key value b = find_scan key value (m_list b)"

fun remove_scan :: "'k \<Rightarrow> ('k \<times> 'v) list \<Rightarrow> bool \<times> ('k \<times> 'v) list" where
  "remove_scan key [] = (False, [])"
| "remove_scan key (it # rest) =
     (if fst it = key then (True, rest)
      else (case remove_scan key rest of (r, rest') \<Rightarrow> (r, it # rest')))"

definition Bucket_Remove :: "'k \<Rightarrow> ('k, 'v) Bucket \<Rightarrow> bool \<times> ('k, 'v) Bucket" where
  "Bucket_Remove key b =
     (case remove_scan key (m_list b) of (r, l) \<Rightarrow> (r, b\<lparr>m_list := l\<rparr>))"

text \<open>The first loop of \<open>Bucket::Insert\<close>: \<open>Some\<close> the list with the value overwritten when
  the key is met, \<open>None\<close> when the loop runs to the end.\<close>

fun overwrite_scan :: "'k \<Rightarrow> 'v \<Rightarrow> ('k \<times> 'v) list \<Rightarrow> ('k \<times> 'v) list option" where
  "overwrite_scan key value [] = None"
| "overwrite_scan key value (it # rest) =
     (if fst it = key then Some ((fst it, value) # rest)
      else (case overwrite_scan key value rest of
              None \<Rightarrow> None
            | Some rest' \<Rightarrow> Some (it # rest')))"

definition Bucket_Insert :: "'k \<Rightarrow> 'v \<Rightarrow> ('k, 'v) Bucket \<Rightarrow> bool \<times> ('k, 'v) Bucket" where
  "Bucket_Insert key value b =
     (case overwrite_scan key value (m_list b) of
        Some l \<Rightarrow> (True, b\<lparr>m_list := l\<rparr>)
      | None \<Rightarrow>
          if IsFull b then (False, b)
          else (True, b\<lparr>m_list := m_list b @ [(key, value)]\<rparr>))"

section \<open>Primitive steps of the table\<close>

text \<open>
  \<open>(1 << d) - 1\<close> is computed in \<open>int\<close> (32 bits) both in \<open>IndexOf\<close> and in \<open>SplitBucket\<close>.
  For \<open>d < 31\<close> it is the mask of the low \<open>d\<close> bits, and the conversion to \<open>size_t\<close>
  keeps its value. For \<open>d \<ge> 31\<close> the shift or the subtraction leaves the range of
  \<open>int\<close>, which C++ does not define.
\<close>

definition depth_mask :: "nat \<Rightarrow> undefined_behaviour + nat" where
  "depth_mask d = (if d < 31 then Inr (push_bit d 1 - 1) else Inl UndefinedShift)"

text \<open>\<open>v[i]\<close> on a \<open>std::vector\<close>: no bounds check in the source.\<close>

definition vec_at :: "'a list \<Rightarrow> nat \<Rightarrow> undefined_behaviour + 'a" where
  "vec_at v i = (if i < length v then Inr (v ! i) else Inl UndefinedIndexing)"

text \<open>\<open>p->\<close> on a shared pointer: the address of the bucket it refers to.\<close>

definition deref :: "('k, 'v) ExtendibleHashTable \<Rightarrow> bucket_ptr \<Rightarrow> undefined_behaviour + nat" where
  "deref t p =
     (case p of
        None \<Rightarrow> Inl UndefinedDereference
      | Some a \<Rightarrow> if a < length (heap t) then Inr a else Inl UndefinedDereference)"

text \<open>\<open>std::make_shared<Bucket>(...)\<close>: the new bucket goes to the end of the store; the
  result is its address \<open>a\<close>, the shared pointer to it is \<open>Some a\<close>.\<close>

definition make_shared ::
  "('k, 'v) Bucket \<Rightarrow> ('k, 'v) ExtendibleHashTable \<Rightarrow> nat \<times> ('k, 'v) ExtendibleHashTable" where
  "make_shared b t = (length (heap t), t\<lparr>heap := heap t @ [b]\<rparr>)"

section \<open>ExtendibleHashTable\<close>

text \<open>
  Modelled from the spec: the constructor in the source initialises only \<open>bucket_size_\<close>
  and the directory; the initial values of \<open>global_depth_\<close> and \<open>num_buckets_\<close> come from
  the member declarations in the missing header. The spec: "the table is created with one
  bucket of depth 0 covering the single directory slot", "global depth starts at 0, one
  bucket".
\<close>

definition ExtendibleHashTable_new :: "nat \<Rightarrow> ('k, 'v) ExtendibleHashTable" where
  "ExtendibleHashTable_new bucket_size =
     \<lparr>m_global_depth = 0, m_bucket_size = bucket_size, m_num_buckets = 1,
      m_dir = [Some 0], heap = [Bucket_new bucket_size 0]\<rparr>"

text \<open>
  \<open>std::hash<K>\<close> is not part of the repository: every operation takes the hash function
  \<open>h\<close> as its first argument.
\<close>

definition IndexOf ::
  "('k \<Rightarrow> nat) \<Rightarrow> 'k \<Rightarrow> ('k, 'v) ExtendibleHashTable \<Rightarrow> undefined_behaviour + nat" where
  "IndexOf h key t =
     (case depth_mask (m_global_depth t) of
        Inl e \<Rightarrow> Inl e
      | Inr msk \<Rightarrow> Inr (h key AND msk))"

definition GetGlobalDepth :: "('k, 'v) ExtendibleHashTable \<Rightarrow> nat" where
  "GetGlobalDepth t = m_global_depth t"

text \<open>\<open>dir_[dir_index]\<close> converts the \<open>int\<close> argument to \<open>size_t\<close> (64 bits).\<close>

definition size_t_of_int :: "int \<Rightarrow> nat" where
  "size_t_of_int i = nat (i mod 2 ^ 64)"

definition GetLocalDepth :: "('k, 'v) ExtendibleHashTable \<Rightarrow> int \<Rightarrow> undefined_behaviour + nat" where
  "GetLocalDepth t dir_index =
     (case vec_at (m_dir t) (size_t_of_int dir_index) of
        Inl e \<Rightarrow> Inl e
      | Inr bucket \<Rightarrow>
          (case deref t bucket of
             Inl e \<Rightarrow> Inl e
           | Inr a \<Rightarrow> Inr (GetDepth (heap t ! a))))"


definition Find ::
  "('k \<Rightarrow> nat) \<Rightarrow> 'k \<Rightarrow> 'v \<Rightarrow> ('k, 'v) ExtendibleHashTable \<Rightarrow> undefined_behaviour + (bool \<times> 'v)" where
  "Find h key value t =
     (case IndexOf h key t of
        Inl e \<Rightarrow> Inl e
      | Inr index \<Rightarrow>
          (case vec_at (m_dir t) index of
             Inl e \<Rightarrow> Inl e
           | Inr bucket \<Rightarrow>
               (case deref t bucket of
                  Inl e \<Rightarrow> Inl e
                | Inr a \<Rightarrow> Inr (Bucket_Find key value (heap t ! a)))))"

definition Remove ::
  "('k \<Rightarrow> nat) \<Rightarrow> 'k \<Rightarrow> ('k, 'v) ExtendibleHashTable
     \<Rightarrow> undefined_behaviour + (bool \<times> ('k, 'v) ExtendibleHashTable)" where
  "Remove h key t =
     (case IndexOf h key t of
        Inl e \<Rightarrow> Inl e
      | Inr index \<Rightarrow>
          (case vec_at (m_dir t) index of
             Inl e \<Rightarrow> Inl e
           | Inr bucket \<Rightarrow>
               (case deref t bucket of
                  Inl e \<Rightarrow> Inl e
                | Inr a \<Rightarrow>
                    (case Bucket_Remove key (heap t ! a) of
                       (r, b') \<Rightarrow> Inr (r, t\<lparr>heap := (heap t)[a := b']\<rparr>)))))"

text \<open>
  \<open>DoubleDirectory\<close>: \<open>resize\<close> appends \<open>old_size\<close> null pointers, the loop then copies slot
  \<open>i\<close> to slot \<open>i + old_size\<close>.
\<close>

definition DoubleDirectory :: "('k, 'v) ExtendibleHashTable \<Rightarrow> ('k, 'v) ExtendibleHashTable" where
  "DoubleDirectory t =
     (let old_size = length (m_dir t);
          resized = m_dir t @ replicate (2 * old_size - old_size) None
      in t\<lparr>m_dir := fold (\<lambda>i d. d[i + old_size := d ! i]) [0..<old_size] resized\<rparr>)"

text \<open>
  \<open>SplitBucket\<close>. The loop over the directory is \<open>reassign\<close>, the loop over the items of the
  old bucket is \<open>redistribute\<close>; \<open>ptr_Insert\<close> is \<open>p->Insert(key, value)\<close> with the result
  dropped, as the source drops it. The pointers compared in the directory loop and those
  inserted through in the item loop were all obtained from valid buckets, so the only
  undefined steps are those of \<open>IndexOf\<close>, \<open>dir_[index]\<close> and the mask.
\<close>

definition reassign ::
  "nat \<Rightarrow> nat \<Rightarrow> bucket_ptr \<Rightarrow> bucket_ptr \<Rightarrow> bucket_ptr \<Rightarrow> bucket_ptr list \<Rightarrow> bucket_ptr list" where
  "reassign step1 step bucket new_bucket new_bucket2 d =
     fold (\<lambda>i d.
             if (i AND step1) \<noteq> step \<and> d ! i = bucket then d[i := new_bucket]
             else if (i AND step1) = step \<and> d ! i = bucket then d[i := new_bucket2]
             else d)
          [0..<length d] d"

definition ptr_Insert ::
  "nat \<Rightarrow> 'k \<Rightarrow> 'v \<Rightarrow> ('k, 'v) ExtendibleHashTable \<Rightarrow> ('k, 'v) ExtendibleHashTable" where
  "ptr_Insert a key value t = t\<lparr>heap := (heap t)[a := snd (Bucket_Insert key value (heap t ! a))]\<rparr>"

definition redistribute ::
  "('k \<Rightarrow> nat) \<Rightarrow> nat \<Rightarrow> nat \<Rightarrow> nat \<Rightarrow> nat \<Rightarrow> ('k \<times> 'v) list
     \<Rightarrow> ('k, 'v) ExtendibleHashTable \<Rightarrow> ('k, 'v) ExtendibleHashTable" where
  "redistribute h step1 step new_bucket new_bucket2 items t =
     fold (\<lambda>item t.
             let tempp = h (fst item)
             in if (step1 AND tempp) \<noteq> step then ptr_Insert new_bucket (fst item) (snd item) t
                else ptr_Insert new_bucket2 (fst item) (snd item) t)
          items t"

definition SplitBucket ::
  "('k \<Rightarrow> nat) \<Rightarrow> 'k \<Rightarrow> ('k, 'v) ExtendibleHashTable
     \<Rightarrow> undefined_behaviour + ('k, 'v) ExtendibleHashTable" where
  "SplitBucket h key t =
     (case IndexOf h key t of
        Inl e \<Rightarrow> Inl e
      | Inr index \<Rightarrow>
          (case vec_at (m_dir t) index of
             Inl e \<Rightarrow> Inl e
           | Inr bucket \<Rightarrow>
               (case deref t bucket of
                  Inl e \<Rightarrow> Inl e
                | Inr a \<Rightarrow>
                    (let t1 = t\<lparr>heap := (heap t)[a := IncrementDepth (heap t ! a)]\<rparr>;
                         d = GetDepth (heap t1 ! a);
                         (new_bucket, t2) = make_shared (Bucket_new (m_bucket_size t1) d) t1;
                         (new_bucket2, t3) = make_shared (Bucket_new (m_bucket_size t2) d) t2
                     in case depth_mask d of
                          Inl e \<Rightarrow> Inl e
                        | Inr step1 \<Rightarrow>
                            (let step = step1 AND index;
                                 t4 = t3\<lparr>m_dir := reassign step1 step bucket (Some new_bucket)
                                                   (Some new_bucket2) (m_dir t3)\<rparr>;
                                 t5 = t4\<lparr>m_num_buckets := m_num_buckets t4 + 1\<rparr>;
                                 items = GetItems (heap t5 ! a)
                             in Inr (redistribute h step1 step new_bucket new_bucket2 items t5))))))"

text \<open>
  \<open>Insert\<close>. The state of the \<open>while\<close> loop is the table and the local pointer \<open>bucket\<close>.
\<close>

function Insert_while ::
  "('k \<Rightarrow> nat) \<Rightarrow> 'k \<Rightarrow> 'v \<Rightarrow> ('k, 'v) ExtendibleHashTable \<Rightarrow> bucket_ptr
     \<Rightarrow> undefined_behaviour + ('k, 'v) ExtendibleHashTable" where
  "Insert_while h key value t bucket =
     (case deref t bucket of
        Inl e \<Rightarrow> Inl e
      | Inr a \<Rightarrow>
          (case Bucket_Insert key value (heap t ! a) of
             (True, b') \<Rightarrow> Inr (t\<lparr>heap := (heap t)[a := b']\<rparr>)
           | (False, b') \<Rightarrow>
               (let t1 = (if m_global_depth t = GetDepth (heap t ! a)
                          then DoubleDirectory (t\<lparr>m_global_depth := m_global_depth t + 1\<rparr>)
                          else t)
                in case SplitBucket h key t1 of
                     Inl e \<Rightarrow> Inl e
                   | Inr t2 \<Rightarrow>
                       (case IndexOf h key t2 of
                          Inl e \<Rightarrow> Inl e
                        | Inr index \<Rightarrow>
                            (case vec_at (m_dir t2) index of
                               Inl e \<Rightarrow> Inl e
                             | Inr bucket' \<Rightarrow> Insert_while h key value t2 bucket')))))"
  by pat_completeness auto

definition Insert ::
  "('k \<Rightarrow> nat) \<Rightarrow> 'k \<Rightarrow> 'v \<Rightarrow> ('k, 'v) ExtendibleHashTable
     \<Rightarrow> undefined_behaviour + ('k, 'v) ExtendibleHashTable" where
  "Insert h key value t =
     (case IndexOf h key t of
        Inl e \<Rightarrow> Inl e
      | Inr index \<Rightarrow>
          (case vec_at (m_dir t) index of
             Inl e \<Rightarrow> Inl e
           | Inr bucket \<Rightarrow> Insert_while h key value t bucket))"

section \<open>Auxiliary notions for the proofs\<close>

text \<open>
  The state that \<open>SplitBucket\<close> returns when it splits the bucket at address \<open>a\<close>, reached
  through slot \<open>index\<close> (lemma \<open>SplitBucket_Inr\<close> shows that this is what the code computes).
\<close>

definition split_state ::
  "('k \<Rightarrow> nat) \<Rightarrow> nat \<Rightarrow> nat \<Rightarrow> ('k, 'v) ExtendibleHashTable \<Rightarrow> ('k, 'v) ExtendibleHashTable" where
  "split_state h index a t =
     (let d = m_depth (heap t ! a) + 1; L = length (heap t)
      in redistribute h (mask d) (index mod 2 ^ d) L (L + 1) (m_list (heap t ! a))
           (t\<lparr>heap := (heap t)[a := IncrementDepth (heap t ! a)]
                        @ [Bucket_new (m_bucket_size t) d, Bucket_new (m_bucket_size t) d],
              m_dir := reassign (mask d) (index mod 2 ^ d) (Some a) (Some L) (Some (L + 1)) (m_dir t),
              m_num_buckets := m_num_buckets t + 1\<rparr>))"

text \<open>The local depth of the bucket that the key addresses; it bounds the loop of \<open>Insert\<close>.\<close>

definition addressed_depth :: "('k \<Rightarrow> nat) \<Rightarrow> 'k \<Rightarrow> ('k, 'v) ExtendibleHashTable \<Rightarrow> nat" where
  "addressed_depth h key t =
     (case m_dir t ! (h key mod 2 ^ m_global_depth t) of
        None \<Rightarrow> 0
      | Some a \<Rightarrow> m_depth (heap t ! a))"

text \<open>
  The invariant of the directory. \<open>slot_ok t i a\<close>: slot \<open>i\<close> holds the pointer to the bucket
  at address \<open>a\<close>; its local depth is at most the global depth, it has the capacity of
  the table and at most that many items, with distinct keys; and the slots that hold the
  same pointer are exactly those that agree with \<open>i\<close> on the low local-depth bits.
\<close>

definition slot_ok :: "('k, 'v) ExtendibleHashTable \<Rightarrow> nat \<Rightarrow> nat \<Rightarrow> bool" where
  "slot_ok t i a \<longleftrightarrow>
     m_dir t ! i = Some a \<and> a < length (heap t) \<and>
     m_depth (heap t ! a) \<le> m_global_depth t \<and>
     m_size (heap t ! a) = m_bucket_size t \<and>
     length (m_list (heap t ! a)) \<le> m_size (heap t ! a) \<and>
     distinct (map fst (m_list (heap t ! a))) \<and>
     (\<forall>j < length (m_dir t).
         m_dir t ! j = Some a \<longleftrightarrow>
         j mod 2 ^ m_depth (heap t ! a) = i mod 2 ^ m_depth (heap t ! a))"

definition dir_inv :: "('k, 'v) ExtendibleHashTable \<Rightarrow> bool" where
  "dir_inv t \<longleftrightarrow>
     length (m_dir t) = 2 ^ m_global_depth t \<and>
     (\<forall>i < length (m_dir t). \<exists>a. slot_ok t i a)"

text \<open>Every item lies in a bucket that the hash of its key addresses.\<close>

definition placed :: "('k \<Rightarrow> nat) \<Rightarrow> ('k, 'v) ExtendibleHashTable \<Rightarrow> bool" where
  "placed h t \<longleftrightarrow>
     (\<forall>i < length (m_dir t). \<forall>a. m_dir t ! i = Some a \<longrightarrow>
        (\<forall>it \<in> set (m_list (heap t ! a)).
           h (fst it) mod 2 ^ m_depth (heap t ! a) = i mod 2 ^ m_depth (heap t ! a)))"

text \<open>The invariant of the table between two public operations.\<close>

definition table_inv :: "('k \<Rightarrow> nat) \<Rightarrow> ('k, 'v) ExtendibleHashTable \<Rightarrow> bool" where
  "table_inv h t \<longleftrightarrow> dir_inv t \<and> placed h t \<and> m_global_depth t < 31"

text \<open>The state in which the loop of \<open>Insert\<close> calls \<open>SplitBucket\<close>: the directory has
  been doubled if the full bucket, at address \<open>a\<close>, had the global depth.\<close>

definition pre_split :: "('k, 'v) ExtendibleHashTable \<Rightarrow> nat \<Rightarrow> ('k, 'v) ExtendibleHashTable" where
  "pre_split t a =
     (if m_global_depth t = m_depth (heap t ! a)
      then DoubleDirectory (t\<lparr>m_global_depth := Suc (m_global_depth t)\<rparr>)
      else t)"

text \<open>
  The states of a table in use: the constructor, then any sequence of \<open>Insert\<close> and \<open>Remove\<close>
  calls that return (\<open>Find\<close> and the three getters do not change the table).
\<close>

inductive reachable :: "('k \<Rightarrow> nat) \<Rightarrow> ('k, 'v) ExtendibleHashTable \<Rightarrow> bool" for h where
  reachable_new: "reachable h (ExtendibleHashTable_new bucket_size)"
| reachable_Insert: "reachable h t \<Longrightarrow> Insert h key value t = Inr t' \<Longrightarrow> reachable h t'"
| reachable_Remove: "reachable h t \<Longrightarrow> Remove h key t = Inr (r, t') \<Longrightarrow> reachable h t'"

text \<open>The content of the table: the items of all buckets that the directory refers to.\<close>

definition table_entries :: "('k, 'v) ExtendibleHashTable \<Rightarrow> ('k \<times> 'v) set" where
  "table_entries t =
     (\<Union>p \<in> set (m_dir t). case p of None \<Rightarrow> {} | Some a \<Rightarrow> set (m_list (heap t ! a)))"

text \<open>
  A table for concrete instances: keys and values are numbers, the hash of a key is the key
  (as \<open>std::hash<int>\<close> of libstdc++ computes it), buckets hold two items. \<open>ex_table\<close> is
  the state after inserting the keys 0, 1, 2 and 4 into a new table.
\<close>

definition ex_hash :: "nat \<Rightarrow> nat" where
  "ex_hash k = k"

definition ex_table :: "(nat, nat) ExtendibleHashTable" where
  "ex_table =
     \<lparr>m_global_depth = 2, m_bucket_size = 2, m_num_buckets = 3,
      m_dir = [Some 4, Some 1, Some 3, Some 1],
      heap = [\<lparr>m_size = 2, m_depth = 1, m_list = [(0, 10), (1, 11)]\<rparr>,
              \<lparr>m_size = 2, m_depth = 1, m_list = [(1, 11)]\<rparr>,
              \<lparr>m_size = 2, m_depth = 2, m_list = [(0, 10), (2, 12)]\<rparr>,
              \<lparr>m_size = 2, m_depth = 2, m_list = [(2, 12)]\<rparr>,
              \<lparr>m_size = 2, m_depth = 2, m_list = [(0, 10), (4, 14)]\<rparr>]\<rparr>"

text \<open>\<open>ex_table_8\<close>: \<open>ex_table\<close> after inserting the key 8, which doubles the directory and
  splits the bucket of the keys 0 and 4; \<open>ex_table_8_removed\<close>: the key 8 removed again;
  \<open>ex_table_4\<close>: \<open>ex_table\<close> after inserting the key 4 a second time.\<close>

definition ex_table_8 :: "(nat, nat) ExtendibleHashTable" where
  "ex_table_8 =
     \<lparr>m_global_depth = 3, m_bucket_size = 2, m_num_buckets = 4,
      m_dir = [Some 6, Some 1, Some 3, Some 1, Some 5, Some 1, Some 3, Some 1],
      heap = [\<lparr>m_size = 2, m_depth = 1, m_list = [(0, 10), (1, 11)]\<rparr>,
              \<lparr>m_size = 2, m_depth = 1, m_list = [(1, 11)]\<rparr>,
              \<lparr>m_size = 2, m_depth = 2, m_list = [(0, 10), (2, 12)]\<rparr>,
              \<lparr>m_size = 2, m_depth = 2, m_list = [(2, 12)]\<rparr>,
              \<lparr>m_size = 2, m_depth = 3, m_list = [(0, 10), (4, 14)]\<rparr>,
              \<lparr>m_size = 2, m_depth = 3, m_list = [(4, 14)]\<rparr>,
              \<lparr>m_size = 2, m_depth = 3, m_list = [(0, 10), (8, 18)]\<rparr>]\<rparr>"

definition ex_table_8_removed :: "(nat, nat) ExtendibleHashTable" where
  "ex_table_8_removed =
     \<lparr>m_global_depth = 3, m_bucket_size = 2, m_num_buckets = 4,
      m_dir = [Some 6, Some 1, Some 3, Some 1, Some 5, Some 1, Some 3, Some 1],
      heap = [\<lparr>m_size = 2, m_depth = 1, m_list = [(0, 10), (1, 11)]\<rparr>,
              \<lparr>m_size = 2, m_depth = 1, m_list = [(1, 11)]\<rparr>,
              \<lparr>m_size = 2, m_depth = 2, m_list = [(0, 10), (2, 12)]\<rparr>,
              \<lparr>m_size = 2, m_depth = 2, m_list = [(2, 12)]\<rparr>,
              \<lparr>m_size = 2, m_depth = 3, m_list = [(0, 10), (4, 14)]\<rparr>,
              \<lparr>m_size = 2, m_depth = 3, m_list = [(4, 14)]\<rparr>,
              \<lparr>m_size = 2, m_depth = 3, m_list = [(0, 10)]\<rparr>]\<rparr>"


text \<open>\<open>ex_table_split\<close>: the state in which \<open>SplitBucket\<close> leaves the table while the key 8
  is inserted into \<open>ex_table\<close> (the key itself is not yet stored).\<close>

definition ex_table_split :: "(nat, nat) ExtendibleHashTable" where
  "ex_table_split =
     \<lparr>m_global_depth = 3, m_bucket_size = 2, m_num_buckets = 4,
      m_dir = [Some 6, Some 1, Some 3, Some 1, Some 5, Some 1, Some 3, Some 1],
      heap = [\<lparr>m_size = 2, m_depth = 1, m_list = [(0, 10), (1, 11)]\<rparr>,
              \<lparr>m_size = 2, m_depth = 1, m_list = [(1, 11)]\<rparr>,
              \<lparr>m_size = 2, m_depth = 2, m_list = [(0, 10), (2, 12)]\<rparr>,
              \<lparr>m_size = 2, m_depth = 2, m_list = [(2, 12)]\<rparr>,
              \<lparr>m_size = 2, m_depth = 3, m_list = [(0, 10), (4, 14)]\<rparr>,
              \<lparr>m_size = 2, m_depth = 3, m_list = [(4, 14)]\<rparr>,
              \<lparr>m_size = 2, m_depth = 3, m_list = [(0, 10)]\<rparr>]\<rparr>"

text \<open>
  Tables whose keys collide: \<open>ex_clustered\<close> holds the keys 0 and \<open>2 ^ 30\<close> in buckets of
  capacity 2, \<open>ex_single\<close> the key 5 in buckets of capacity 1. The keys 0, \<open>2 ^ 30\<close> and
  \<open>2 ^ 31\<close> agree on their low 30 bits, as do 5 and \<open>5 + 2 ^ 30\<close>.
\<close>

definition ex_clustered :: "(nat, nat) ExtendibleHashTable" where
  "ex_clustered =
     \<lparr>m_global_depth = 0, m_bucket_size = 2, m_num_buckets = 1, m_dir = [Some 0],
      heap = [\<lparr>m_size = 2, m_depth = 0, m_list = [(0, 1), (2 ^ 30, 2)]\<rparr>]\<rparr>"

definition ex_single :: "(nat, nat) ExtendibleHashTable" where
  "ex_single =
     \<lparr>m_global_depth = 0, m_bucket_size = 1, m_num_buckets = 1, m_dir = [Some 0],
      heap = [\<lparr>m_size = 1, m_depth = 0, m_list = [(5, 50)]\<rparr>]\<rparr>"

section \<open>The loops of \<open>DoubleDirectory\<close> and \<open>SplitBucket\<close>\<close>

lemma fold_copy_aux:
  "n \<le> length xs \<Longrightarrow> length ys = length xs \<Longrightarrow>
   fold (\<lambda>i d. d[i + length xs := d ! i]) [0..<n] (xs @ ys) = xs @ take n xs @ drop n ys"
proof (induction n)
  case 0 then show ?case by simp
next
  case (Suc n)
  then have "drop n ys = ys ! n # drop (Suc n) ys"
    by (simp add: Cons_nth_drop_Suc)
  with Suc show ?case
    by (simp add: nth_append take_Suc_conv_app_nth list_update_append)
qed

lemma DoubleDirectory_eq: "DoubleDirectory t = t\<lparr>m_dir := m_dir t @ m_dir t\<rparr>"
  using fold_copy_aux[of "length (m_dir t)" "m_dir t" "replicate (length (m_dir t)) None"]
  by (simp add: DoubleDirectory_def Let_def)

lemma reassign_aux:
  "n \<le> length d \<Longrightarrow>
   fold (\<lambda>i d.
             if (i AND step1) \<noteq> step \<and> d ! i = bucket then d[i := nb]
             else if (i AND step1) = step \<and> d ! i = bucket then d[i := nb2]
             else d) [0..<n] d
   = map (\<lambda>i. if d ! i = bucket then (if (i AND step1) \<noteq> step then nb else nb2) else d ! i) [0..<n] @ drop n d"
proof (induction n)
  case 0 then show ?case by simp
next
  case (Suc n)
  then have "drop n d = d ! n # drop (Suc n) d"
    by (simp add: Cons_nth_drop_Suc)
  with Suc show ?case
    by (simp add: nth_append list_update_append)
qed

lemma reassign_eq:
  "reassign step1 step bucket nb nb2 d =
   map (\<lambda>i. if d ! i = bucket then (if (i AND step1) \<noteq> step then nb else nb2) else d ! i) [0..<length d]"
  using reassign_aux[of "length d" d step1 step bucket nb nb2] by (simp add: reassign_def)

lemma length_reassign: "length (reassign step1 step bucket nb nb2 d) = length d"
  by (simp add: reassign_eq)

lemma nth_reassign:
  "i < length d \<Longrightarrow> reassign step1 step bucket nb nb2 d ! i =
     (if d ! i = bucket then (if (i AND step1) \<noteq> step then nb else nb2) else d ! i)"
  by (simp add: reassign_eq)

lemma overwrite_scan_None: "overwrite_scan key value l = None \<longleftrightarrow> key \<notin> fst ` set l"
  by (induction l) (auto split: option.splits)

lemma overwrite_scan_Some:
  "overwrite_scan key value l = Some l' \<Longrightarrow> map fst l' = map fst l"
  by (induction l arbitrary: l') (auto split: option.splits if_splits)

lemma Bucket_Insert_depth [simp]: "m_depth (snd (Bucket_Insert key value b)) = m_depth b"
  by (simp add: Bucket_Insert_def split: option.splits)

lemma Bucket_Insert_size [simp]: "m_size (snd (Bucket_Insert key value b)) = m_size b"
  by (simp add: Bucket_Insert_def split: option.splits)

lemma Bucket_Insert_fresh:
  "key \<notin> fst ` set (m_list b) \<Longrightarrow> length (m_list b) < m_size b \<Longrightarrow>
   Bucket_Insert key value b = (True, b\<lparr>m_list := m_list b @ [(key, value)]\<rparr>)"
  using overwrite_scan_None[of key "value" "m_list b"]
  by (simp add: Bucket_Insert_def IsFull_def)

lemma ptr_Insert_fields [simp]:
  "m_dir (ptr_Insert a key value t) = m_dir t"
  "m_global_depth (ptr_Insert a key value t) = m_global_depth t"
  "m_bucket_size (ptr_Insert a key value t) = m_bucket_size t"
  "m_num_buckets (ptr_Insert a key value t) = m_num_buckets t"
  "length (heap (ptr_Insert a key value t)) = length (heap t)"
  by (simp_all add: ptr_Insert_def)

lemma ptr_Insert_depth [simp]:
  "m_depth (heap (ptr_Insert a key value t) ! x) = m_depth (heap t ! x)"
  by (cases "a < length (heap t)"; cases "x = a") (simp_all add: ptr_Insert_def list_update_beyond)

lemma ptr_Insert_size [simp]:
  "m_size (heap (ptr_Insert a key value t) ! x) = m_size (heap t ! x)"
  by (cases "a < length (heap t)"; cases "x = a") (simp_all add: ptr_Insert_def list_update_beyond)

lemma ptr_Insert_other: "x \<noteq> a \<Longrightarrow> heap (ptr_Insert a key value t) ! x = heap t ! x"
  by (simp add: ptr_Insert_def)

lemma redistribute_Nil [simp]: "redistribute h step1 step nb nb2 [] t = t"
  by (simp add: redistribute_def)

lemma redistribute_Cons:
  "redistribute h step1 step nb nb2 (item # items) t =
   redistribute h step1 step nb nb2 items
     (if (step1 AND h (fst item)) \<noteq> step then ptr_Insert nb (fst item) (snd item) t
      else ptr_Insert nb2 (fst item) (snd item) t)"
  by (simp add: redistribute_def Let_def)

lemma redistribute_fields [simp]:
  "m_dir (redistribute h step1 step nb nb2 items t) = m_dir t"
  "m_global_depth (redistribute h step1 step nb nb2 items t) = m_global_depth t"
  "m_bucket_size (redistribute h step1 step nb nb2 items t) = m_bucket_size t"
  "m_num_buckets (redistribute h step1 step nb nb2 items t) = m_num_buckets t"
  "length (heap (redistribute h step1 step nb nb2 items t)) = length (heap t)"
  by (induction items arbitrary: t; simp add: redistribute_Cons)+

lemma redistribute_depth [simp]:
  "m_depth (heap (redistribute h step1 step nb nb2 items t) ! x) = m_depth (heap t ! x)"
  by (induction items arbitrary: t) (simp_all add: redistribute_Cons)

lemma redistribute_size [simp]:
  "m_size (heap (redistribute h step1 step nb nb2 items t) ! x) = m_size (heap t ! x)"
  by (induction items arbitrary: t) (simp_all add: redistribute_Cons)

lemma redistribute_other:
  "x \<noteq> nb \<Longrightarrow> x \<noteq> nb2 \<Longrightarrow> heap (redistribute h step1 step nb nb2 items t) ! x = heap t ! x"
  by (induction items arbitrary: t) (simp_all add: redistribute_Cons ptr_Insert_other)

lemma depth_mask_Inr: "depth_mask d = Inr m \<longleftrightarrow> d < 31 \<and> m = mask d"
  by (auto simp: depth_mask_def mask_eq_exp_minus_1)

lemma depth_mask_Inl: "depth_mask d = Inl e \<longleftrightarrow> \<not> d < 31 \<and> e = UndefinedShift"
  by (auto simp: depth_mask_def)

lemma and_mask_mod: "x AND mask d = (x::nat) mod 2 ^ d"
  by (simp add: take_bit_eq_mod flip: take_bit_eq_mask)

lemma mask_and_mod: "mask d AND x = (x::nat) mod 2 ^ d"
  using and_mask_mod[of x d] by (simp add: and.commute)

lemma IndexOf_Inr:
  "IndexOf h key t = Inr index \<longleftrightarrow> m_global_depth t < 31 \<and> index = h key mod 2 ^ m_global_depth t"
  by (auto simp: IndexOf_def depth_mask_Inr depth_mask_Inl and_mask_mod split: sum.splits)

lemma IndexOf_Inl:
  "IndexOf h key t = Inl e \<longleftrightarrow> \<not> m_global_depth t < 31 \<and> e = UndefinedShift"
  by (auto simp: IndexOf_def depth_mask_Inr depth_mask_Inl split: sum.splits)

lemma vec_at_Inr: "vec_at v i = Inr x \<longleftrightarrow> i < length v \<and> x = v ! i"
  by (auto simp: vec_at_def)

lemma vec_at_Inl: "vec_at v i = Inl e \<longleftrightarrow> \<not> i < length v \<and> e = UndefinedIndexing"
  by (auto simp: vec_at_def)

lemma deref_Inr: "deref t p = Inr a \<longleftrightarrow> p = Some a \<and> a < length (heap t)"
  by (auto simp: deref_def split: option.splits)

lemma deref_Inl: "deref t p = Inl e \<longleftrightarrow> (\<forall>a. p = Some a \<longrightarrow> \<not> a < length (heap t)) \<and> e = UndefinedDereference"
  by (auto simp: deref_def split: option.splits)

lemma SplitBucket_Inr:
  "SplitBucket h key t = Inr t' \<longleftrightarrow>
     (\<exists>a. m_global_depth t < 31 \<and> h key mod 2 ^ m_global_depth t < length (m_dir t) \<and>
          m_dir t ! (h key mod 2 ^ m_global_depth t) = Some a \<and> a < length (heap t) \<and>
          m_depth (heap t ! a) < 30 \<and>
          t' = split_state h (h key mod 2 ^ m_global_depth t) a t)"
  apply (auto simp: SplitBucket_def IndexOf_Inr IndexOf_Inl vec_at_Inr vec_at_Inl deref_Inl deref_Inr depth_mask_Inr depth_mask_Inl Let_def make_shared_def GetDepth_def IncrementDepth_def
    GetItems_def  split_state_def mask_and_mod nth_append simp del: power_Suc
     split: sum.splits if_splits)
  done

lemma ptr_Insert_list_fresh:
  "a < length (heap t) \<Longrightarrow> key \<notin> fst ` set (m_list (heap t ! a)) \<Longrightarrow>
   length (m_list (heap t ! a)) < m_size (heap t ! a) \<Longrightarrow>
   m_list (heap (ptr_Insert a key value t) ! a) = m_list (heap t ! a) @ [(key, value)]"
  by (simp add: ptr_Insert_def Bucket_Insert_fresh)

lemma redistribute_lists:
  assumes "nb < length (heap t)" "nb2 < length (heap t)" "nb \<noteq> nb2"
    and "distinct (map fst items)"
    and "fst ` set items \<inter> fst ` set (m_list (heap t ! nb)) = {}"
    and "fst ` set items \<inter> fst ` set (m_list (heap t ! nb2)) = {}"
    and "length (m_list (heap t ! nb)) + length (filter (\<lambda>it. (step1 AND h (fst it)) \<noteq> step) items)
           \<le> m_size (heap t ! nb)"
    and "length (m_list (heap t ! nb2)) + length (filter (\<lambda>it. (step1 AND h (fst it)) = step) items)
           \<le> m_size (heap t ! nb2)"
  shows "m_list (heap (redistribute h step1 step nb nb2 items t) ! nb) =
           m_list (heap t ! nb) @ filter (\<lambda>it. (step1 AND h (fst it)) \<noteq> step) items \<and>
         m_list (heap (redistribute h step1 step nb nb2 items t) ! nb2) =
           m_list (heap t ! nb2) @ filter (\<lambda>it. (step1 AND h (fst it)) = step) items"
  using assms
proof (induction items arbitrary: t)
  case Nil
  then show ?case by simp
next
  case (Cons it items)
  show ?case
  proof (cases "(step1 AND h (fst it)) \<noteq> step")
    case True
    let ?t = "ptr_Insert nb (fst it) (snd it) t"
    have l: "m_list (heap ?t ! nb) = m_list (heap t ! nb) @ [it]"
      using Cons.prems True by (subst ptr_Insert_list_fresh) auto
    have o: "heap ?t ! nb2 = heap t ! nb2"
      using Cons.prems by (simp add: ptr_Insert_other)
    have "m_list (heap (redistribute h step1 step nb nb2 items ?t) ! nb) =
           m_list (heap ?t ! nb) @ filter (\<lambda>it. (step1 AND h (fst it)) \<noteq> step) items \<and>
         m_list (heap (redistribute h step1 step nb nb2 items ?t) ! nb2) =
           m_list (heap ?t ! nb2) @ filter (\<lambda>it. (step1 AND h (fst it)) = step) items"
      using Cons.prems True by (intro Cons.IH) (auto simp: l o)
    then show ?thesis using True by (simp add: redistribute_Cons l o)
  next
    case False
    let ?t = "ptr_Insert nb2 (fst it) (snd it) t"
    have l: "m_list (heap ?t ! nb2) = m_list (heap t ! nb2) @ [it]"
      using Cons.prems False by (subst ptr_Insert_list_fresh) auto
    have o: "heap ?t ! nb = heap t ! nb"
      using Cons.prems by (simp add: ptr_Insert_other)
    have "m_list (heap (redistribute h step1 step nb nb2 items ?t) ! nb) =
           m_list (heap ?t ! nb) @ filter (\<lambda>it. (step1 AND h (fst it)) \<noteq> step) items \<and>
         m_list (heap (redistribute h step1 step nb nb2 items ?t) ! nb2) =
           m_list (heap ?t ! nb2) @ filter (\<lambda>it. (step1 AND h (fst it)) = step) items"
      using Cons.prems False by (intro Cons.IH) (auto simp: l o)
    then show ?thesis using False by (simp add: redistribute_Cons l o)
  qed
qed

section \<open>Termination of the loop of \<open>Insert\<close>\<close>

lemma split_state_fields [simp]:
  "m_global_depth (split_state h index a t) = m_global_depth t"
  "m_bucket_size (split_state h index a t) = m_bucket_size t"
  "m_num_buckets (split_state h index a t) = m_num_buckets t + 1"
  "length (heap (split_state h index a t)) = length (heap t) + 2"
  "length (m_dir (split_state h index a t)) = length (m_dir t)"
  by (simp_all add: split_state_def Let_def length_reassign del: power_Suc)

lemma split_state_dir:
  "m_dir (split_state h index a t) =
     reassign (mask (m_depth (heap t ! a) + 1)) (index mod 2 ^ (m_depth (heap t ! a) + 1))
       (Some a) (Some (length (heap t))) (Some (length (heap t) + 1)) (m_dir t)"
  by (simp add: split_state_def Let_def del: power_Suc)

lemma nth_split_state_dir:
  "j < length (m_dir t) \<Longrightarrow>
   m_dir (split_state h index a t) ! j =
     (if m_dir t ! j = Some a
      then (if j mod 2 ^ Suc (m_depth (heap t ! a)) \<noteq> index mod 2 ^ Suc (m_depth (heap t ! a))
            then Some (length (heap t)) else Some (Suc (length (heap t))))
      else m_dir t ! j)"
  by (simp add: split_state_dir nth_reassign and_mask_mod del: power_Suc)

lemma split_state_depth:
  "a < length (heap t) \<Longrightarrow> x < length (heap t) + 2 \<Longrightarrow>
   m_depth (heap (split_state h index a t) ! x) =
     (if x = a \<or> x = length (heap t) \<or> x = length (heap t) + 1 then m_depth (heap t ! a) + 1
      else m_depth (heap t ! x))"
  by (simp add: split_state_def Let_def nth_append IncrementDepth_def Bucket_new_def del: power_Suc)

lemma SplitBucket_measure:
  assumes "SplitBucket h key t = Inr t'"
  shows "m_global_depth t' = m_global_depth t"
    and "addressed_depth h key t' = addressed_depth h key t + 1"
    and "addressed_depth h key t' < 31"
    and "m_global_depth t < 31"
proof -
  let ?i = "h key mod 2 ^ m_global_depth t"
  from assms obtain a where a: "m_global_depth t < 31" "?i < length (m_dir t)"
    "m_dir t ! ?i = Some a" "a < length (heap t)" "m_depth (heap t ! a) < 30"
    "t' = split_state h ?i a t"
    unfolding SplitBucket_Inr by blast
  show "m_global_depth t' = m_global_depth t" "m_global_depth t < 31" using a by simp_all
  have "m_dir t' ! ?i = Some (length (heap t) + 1)"
    using a by (simp add: nth_split_state_dir del: power_Suc)
  then have "addressed_depth h key t' = m_depth (heap t ! a) + 1"
    using a by (simp add: addressed_depth_def split_state_depth)
  then show "addressed_depth h key t' = addressed_depth h key t + 1" "addressed_depth h key t' < 31"
    using a by (simp_all add: addressed_depth_def)
qed

termination Insert_while
  apply (relation "measures [\<lambda>(h, key, value, t, bucket). 31 - m_global_depth t,
                             \<lambda>(h, key, value, t, bucket). 31 - addressed_depth h key t]")
   apply simp
  subgoal for h key "value" t bucket a x y t1 t2 index bucket'
    using SplitBucket_measure[of h key t1 t2]
    by (auto simp: DoubleDirectory_eq split: if_splits)
  done

declare Insert_while.simps [simp del]

section \<open>The directory invariant\<close>

lemma split_state_heap:
  assumes "a < length (heap t)"
  shows "x < length (heap t) \<Longrightarrow> x \<noteq> a \<Longrightarrow> heap (split_state h index a t) ! x = heap t ! x"
    and "m_size (heap (split_state h index a t) ! length (heap t)) = m_bucket_size t"
    and "m_size (heap (split_state h index a t) ! (length (heap t) + 1)) = m_bucket_size t"
  using assms
  by (simp_all add: split_state_def Let_def redistribute_other nth_append Bucket_new_def del: power_Suc)

lemma split_state_lists:
  assumes "a < length (heap t)" "distinct (map fst (m_list (heap t ! a)))"
    "length (m_list (heap t ! a)) \<le> m_bucket_size t"
  shows "m_list (heap (split_state h index a t) ! length (heap t)) =
           filter (\<lambda>it. h (fst it) mod 2 ^ (m_depth (heap t ! a) + 1) \<noteq> index mod 2 ^ (m_depth (heap t ! a) + 1))
             (m_list (heap t ! a))"
    and "m_list (heap (split_state h index a t) ! (length (heap t) + 1)) =
           filter (\<lambda>it. h (fst it) mod 2 ^ (m_depth (heap t ! a) + 1) = index mod 2 ^ (m_depth (heap t ! a) + 1))
             (m_list (heap t ! a))"
proof -
  let ?d = "m_depth (heap t ! a) + 1"
  let ?L = "length (heap t)"
  let ?t5 = "t\<lparr>heap := (heap t)[a := IncrementDepth (heap t ! a)]
                        @ [Bucket_new (m_bucket_size t) ?d, Bucket_new (m_bucket_size t) ?d],
              m_dir := reassign (mask ?d) (index mod 2 ^ ?d) (Some a) (Some ?L) (Some (?L + 1)) (m_dir t),
              m_num_buckets := m_num_buckets t + 1\<rparr>"
  have le: "length (filter P (m_list (heap t ! a))) \<le> m_bucket_size t" for P
    using assms(3) length_filter_le[of P "m_list (heap t ! a)"] by linarith
  have "m_list (heap (redistribute h (mask ?d) (index mod 2 ^ ?d) ?L (?L + 1) (m_list (heap t ! a)) ?t5) ! ?L) =
           m_list (heap ?t5 ! ?L) @ filter (\<lambda>it. (mask ?d AND h (fst it)) \<noteq> index mod 2 ^ ?d) (m_list (heap t ! a)) \<and>
         m_list (heap (redistribute h (mask ?d) (index mod 2 ^ ?d) ?L (?L + 1) (m_list (heap t ! a)) ?t5) ! (?L + 1)) =
           m_list (heap ?t5 ! (?L + 1)) @ filter (\<lambda>it. (mask ?d AND h (fst it)) = index mod 2 ^ ?d) (m_list (heap t ! a))"
    using assms(1,2) le
    by (intro redistribute_lists) (simp_all add: nth_append Bucket_new_def del: power_Suc)
  then show "m_list (heap (split_state h index a t) ! length (heap t)) =
           filter (\<lambda>it. h (fst it) mod 2 ^ ?d \<noteq> index mod 2 ^ ?d) (m_list (heap t ! a))"
    and "m_list (heap (split_state h index a t) ! (length (heap t) + 1)) =
           filter (\<lambda>it. h (fst it) mod 2 ^ ?d = index mod 2 ^ ?d) (m_list (heap t ! a))"
    by (simp_all add: split_state_def Let_def nth_append Bucket_new_def mask_and_mod del: power_Suc)
qed

lemma mod_pow_le: "d \<le> g \<Longrightarrow> (x::nat) mod 2 ^ g mod 2 ^ d = x mod 2 ^ d"
  by (simp add: mod_mod_cancel le_imp_power_dvd)

lemma mod_pow_eq_le:
  "d \<le> g \<Longrightarrow> (x::nat) mod 2 ^ g = y mod 2 ^ g \<Longrightarrow> x mod 2 ^ d = y mod 2 ^ d"
  by (metis mod_pow_le)

lemma mod_pow_Suc: "(x::nat) mod 2 ^ Suc n = 2 ^ n * (x div 2 ^ n mod 2) + x mod 2 ^ n"
  using mod_mult2_eq[of x "2 ^ n" 2] by (simp add: mult.commute)

lemma mod_pow_Suc_third:
  assumes "(x::nat) mod 2 ^ n = z mod 2 ^ n" "y mod 2 ^ n = z mod 2 ^ n"
    "x mod 2 ^ Suc n \<noteq> z mod 2 ^ Suc n" "y mod 2 ^ Suc n \<noteq> z mod 2 ^ Suc n"
  shows "x mod 2 ^ Suc n = y mod 2 ^ Suc n"
proof -
  have "x div 2 ^ n mod 2 \<noteq> z div 2 ^ n mod 2" "y div 2 ^ n mod 2 \<noteq> z div 2 ^ n mod 2"
    using assms unfolding mod_pow_Suc by auto
  moreover have "a mod 2 \<noteq> c mod 2 \<Longrightarrow> b mod 2 \<noteq> c mod 2 \<Longrightarrow> a mod 2 = b mod 2" for a b c :: nat
    by presburger
  ultimately have "x div 2 ^ n mod 2 = y div 2 ^ n mod 2" by blast
  then show ?thesis using assms(1,2) unfolding mod_pow_Suc by simp
qed

lemma dir_invD:
  assumes "dir_inv t" "i < length (m_dir t)"
  obtains a where "m_dir t ! i = Some a" "a < length (heap t)"
    "m_depth (heap t ! a) \<le> m_global_depth t" "m_size (heap t ! a) = m_bucket_size t"
    "length (m_list (heap t ! a)) \<le> m_bucket_size t" "distinct (map fst (m_list (heap t ! a)))"
    "\<And>j. j < length (m_dir t) \<Longrightarrow>
        m_dir t ! j = Some a \<longleftrightarrow> j mod 2 ^ m_depth (heap t ! a) = i mod 2 ^ m_depth (heap t ! a)"
  using assms unfolding dir_inv_def slot_ok_def by (metis (no_types, lifting))

lemma dir_inv_length: "dir_inv t \<Longrightarrow> length (m_dir t) = 2 ^ m_global_depth t"
  by (simp add: dir_inv_def)

lemma dir_inv_new: "dir_inv (ExtendibleHashTable_new n)"
  by (simp add: dir_inv_def slot_ok_def ExtendibleHashTable_new_def Bucket_new_def)

lemma nth_append_self: "i < 2 * length xs \<Longrightarrow> (xs @ xs) ! i = xs ! (i mod length xs)"
proof (cases "i < length xs")
  case True
  then show ?thesis by (simp add: nth_append)
next
  case False
  moreover assume "i < 2 * length xs"
  ultimately have "i mod length xs = i - length xs"
    by (simp add: le_mod_geq)
  with False show ?thesis by (simp add: nth_append)
qed

lemma dir_inv_double:
  assumes "dir_inv t"
  shows "dir_inv (DoubleDirectory (t\<lparr>m_global_depth := Suc (m_global_depth t)\<rparr>))"
proof -
  let ?g = "m_global_depth t"
  let ?t = "DoubleDirectory (t\<lparr>m_global_depth := Suc (m_global_depth t)\<rparr>)"
  have len: "length (m_dir t) = 2 ^ ?g" using assms by (rule dir_inv_length)
  have nth: "m_dir ?t ! i = m_dir t ! (i mod 2 ^ ?g)" if "i < 2 * 2 ^ ?g" for i
    using that nth_append_self[of i "m_dir t"] by (simp add: DoubleDirectory_eq len)
  show ?thesis
    unfolding dir_inv_def
  proof (intro conjI allI impI)
    show "length (m_dir ?t) = 2 ^ m_global_depth ?t"
      by (simp add: DoubleDirectory_eq len)
  next
    fix i assume "i < length (m_dir ?t)"
    then have i: "i < 2 * 2 ^ ?g" by (simp add: DoubleDirectory_eq len)
    then have "i mod 2 ^ ?g < length (m_dir t)" by (simp add: len)
    with assms obtain a where a: "m_dir t ! (i mod 2 ^ ?g) = Some a" "a < length (heap t)"
      "m_depth (heap t ! a) \<le> ?g" "m_size (heap t ! a) = m_bucket_size t"
      "length (m_list (heap t ! a)) \<le> m_bucket_size t" "distinct (map fst (m_list (heap t ! a)))"
      "\<And>j. j < length (m_dir t) \<Longrightarrow>
        m_dir t ! j = Some a \<longleftrightarrow> j mod 2 ^ m_depth (heap t ! a) = i mod 2 ^ ?g mod 2 ^ m_depth (heap t ! a)"
      by (rule dir_invD) blast
    have "m_dir ?t ! j = Some a \<longleftrightarrow> j mod 2 ^ m_depth (heap t ! a) = i mod 2 ^ m_depth (heap t ! a)"
      if "j < length (m_dir ?t)" for j
    proof -
      from that have j: "j < 2 * 2 ^ ?g" by (simp add: DoubleDirectory_eq len)
      then have "j mod 2 ^ ?g < length (m_dir t)" by (simp add: len)
      from a(7)[OF this] show ?thesis
        using a(3) by (simp add: nth[OF j] mod_pow_le)
    qed
    then have "slot_ok ?t i a"
      using a(1-6) nth[OF i] by (simp add: slot_ok_def DoubleDirectory_eq)
    then show "\<exists>a. slot_ok ?t i a" ..
  qed
qed

lemma dir_inv_split:
  assumes inv: "dir_inv t" and idx: "index < length (m_dir t)" and a: "m_dir t ! index = Some a"
    and lt: "m_depth (heap t ! a) < m_global_depth t"
  shows "dir_inv (split_state h index a t)"
proof -
  let ?t = "split_state h index a t"
  let ?d0 = "m_depth (heap t ! a)"
  let ?L = "length (heap t)"
  from inv idx obtain a' where a': "m_dir t ! index = Some a'" "a' < ?L"
    "length (m_list (heap t ! a')) \<le> m_bucket_size t" "distinct (map fst (m_list (heap t ! a')))"
    "\<And>j. j < length (m_dir t) \<Longrightarrow>
        m_dir t ! j = Some a' \<longleftrightarrow> j mod 2 ^ m_depth (heap t ! a') = index mod 2 ^ m_depth (heap t ! a')"
    by (rule dir_invD) blast
  with a have [simp]: "a' = a" by simp
  from a' have aL: "a < ?L" and sz: "length (m_list (heap t ! a)) \<le> m_bucket_size t"
    and dist: "distinct (map fst (m_list (heap t ! a)))"
    and slots: "\<And>j. j < length (m_dir t) \<Longrightarrow> m_dir t ! j = Some a \<longleftrightarrow> j mod 2 ^ ?d0 = index mod 2 ^ ?d0"
    by simp_all
  have nth: "m_dir ?t ! j =
      (if m_dir t ! j = Some a then (if j mod 2 ^ Suc ?d0 \<noteq> index mod 2 ^ Suc ?d0 then Some ?L else Some (Suc ?L))
       else m_dir t ! j)" if "j < length (m_dir t)" for j
    using that by (rule nth_split_state_dir)
  have len: "length (m_dir ?t) = length (m_dir t)"
    by simp
  note lists = split_state_lists[OF aL dist sz, of h index]
  note heap = split_state_heap[OF aL, where h=h and index=index]
  show ?thesis
    unfolding dir_inv_def
  proof (intro conjI allI impI)
    show "length (m_dir ?t) = 2 ^ m_global_depth ?t"
      using inv by (simp add: len dir_inv_length)
  next
    fix i assume "i < length (m_dir ?t)"
    then have i: "i < length (m_dir t)" by (simp add: len)
    from inv i obtain b where b: "m_dir t ! i = Some b" "b < ?L"
      "m_depth (heap t ! b) \<le> m_global_depth t" "m_size (heap t ! b) = m_bucket_size t"
      "length (m_list (heap t ! b)) \<le> m_bucket_size t" "distinct (map fst (m_list (heap t ! b)))"
      "\<And>j. j < length (m_dir t) \<Longrightarrow>
        m_dir t ! j = Some b \<longleftrightarrow> j mod 2 ^ m_depth (heap t ! b) = i mod 2 ^ m_depth (heap t ! b)"
      by (rule dir_invD) blast
    have below: "\<exists>c < ?L. m_dir t ! j = Some c" if "j < length (m_dir t)" for j
      using inv that by (rule dir_invD) blast
    consider (other) "b \<noteq> a" | (hi) "b = a" "i mod 2 ^ Suc ?d0 = index mod 2 ^ Suc ?d0"
      | (lo) "b = a" "i mod 2 ^ Suc ?d0 \<noteq> index mod 2 ^ Suc ?d0" by blast
    then show "\<exists>c. slot_ok ?t i c"
    proof cases
      case other
      have "m_dir ?t ! j = Some b \<longleftrightarrow> m_dir t ! j = Some b" if "j < length (m_dir t)" for j
        using that b(2) other by (simp add: nth)
      then have "slot_ok ?t i b"
        using b other i by (simp add: slot_ok_def len nth heap split_state_depth)
      then show ?thesis ..
    next
      case hi
      have "m_dir ?t ! j = Some (Suc ?L) \<longleftrightarrow> j mod 2 ^ Suc ?d0 = i mod 2 ^ Suc ?d0"
        if j: "j < length (m_dir t)" for j
      proof -
        from below[OF j] have "m_dir t ! j \<noteq> Some (Suc ?L)" by auto
        moreover have "j mod 2 ^ Suc ?d0 = index mod 2 ^ Suc ?d0 \<Longrightarrow> j mod 2 ^ ?d0 = index mod 2 ^ ?d0"
          by (rule mod_pow_eq_le[of ?d0 "Suc ?d0"]) simp_all
        ultimately show ?thesis
          using slots[OF j] hi by (auto simp add: nth[OF j] simp del: power_Suc)
      qed
      then have "slot_ok ?t i (Suc ?L)"
        using hi b(1) i lt aL lists(2) sz dist heap(3)
        by (simp add: slot_ok_def len nth split_state_depth distinct_map_filter del: power_Suc)
          (meson le_trans length_filter_le)
      then show ?thesis ..
    next
      case lo
      from slots[OF i] b(1) lo(1) have i0: "i mod 2 ^ ?d0 = index mod 2 ^ ?d0" by simp
      have "m_dir ?t ! j = Some ?L \<longleftrightarrow> j mod 2 ^ Suc ?d0 = i mod 2 ^ Suc ?d0"
        if j: "j < length (m_dir t)" for j
      proof -
        from below[OF j] have ne: "m_dir t ! j \<noteq> Some ?L" by auto
        have "j mod 2 ^ Suc ?d0 = i mod 2 ^ Suc ?d0 \<Longrightarrow> j mod 2 ^ ?d0 = i mod 2 ^ ?d0"
          by (rule mod_pow_eq_le[of ?d0 "Suc ?d0"]) simp_all
        moreover have "j mod 2 ^ Suc ?d0 = i mod 2 ^ Suc ?d0"
          if "j mod 2 ^ ?d0 = index mod 2 ^ ?d0" "j mod 2 ^ Suc ?d0 \<noteq> index mod 2 ^ Suc ?d0"
          using that i0 lo(2) by (intro mod_pow_Suc_third[of j _ index i]) simp_all
        ultimately show ?thesis
          using slots[OF j] lo i0 ne by (auto simp add: nth[OF j] simp del: power_Suc)
      qed
      then have "slot_ok ?t i ?L"
        using lo b(1) i lt aL lists(1) sz dist heap(2)
        by (simp add: slot_ok_def len nth split_state_depth distinct_map_filter del: power_Suc)
          (meson le_trans length_filter_le)
      then show ?thesis ..
    qed
  qed
qed

lemma placedD:
  "placed h t \<Longrightarrow> i < length (m_dir t) \<Longrightarrow> m_dir t ! i = Some a \<Longrightarrow> it \<in> set (m_list (heap t ! a)) \<Longrightarrow>
   h (fst it) mod 2 ^ m_depth (heap t ! a) = i mod 2 ^ m_depth (heap t ! a)"
  unfolding placed_def by blast

lemma placed_new: "placed h (ExtendibleHashTable_new n)"
  by (simp add: placed_def ExtendibleHashTable_new_def Bucket_new_def)

lemma placed_double:
  assumes "dir_inv t" "placed h t"
  shows "placed h (DoubleDirectory (t\<lparr>m_global_depth := Suc (m_global_depth t)\<rparr>))"
  unfolding placed_def
proof (intro allI impI ballI)
  let ?g = "m_global_depth t"
  let ?t = "DoubleDirectory (t\<lparr>m_global_depth := Suc (m_global_depth t)\<rparr>)"
  fix i a it
  assume i: "i < length (m_dir ?t)" and a: "m_dir ?t ! i = Some a"
    and it: "it \<in> set (m_list (heap ?t ! a))"
  have len: "length (m_dir t) = 2 ^ ?g" using assms(1) by (rule dir_inv_length)
  from i have i2: "i < 2 * length (m_dir t)" by (simp add: DoubleDirectory_eq)
  then have il: "i mod 2 ^ ?g < length (m_dir t)" by (simp add: len)
  from a have a': "m_dir t ! (i mod 2 ^ ?g) = Some a"
    using nth_append_self[OF i2] by (simp add: DoubleDirectory_eq len)
  from assms(1) il obtain c where "m_dir t ! (i mod 2 ^ ?g) = Some c" "m_depth (heap t ! c) \<le> ?g"
    by (rule dir_invD) blast
  with a' have le: "m_depth (heap t ! a) \<le> ?g" by simp
  from it have "it \<in> set (m_list (heap t ! a))" by (simp add: DoubleDirectory_eq)
  from placedD[OF assms(2) il a' this] le
  show "h (fst it) mod 2 ^ m_depth (heap ?t ! a) = i mod 2 ^ m_depth (heap ?t ! a)"
    by (simp add: DoubleDirectory_eq mod_pow_le)
qed

lemma placed_split:
  assumes inv: "dir_inv t" and pl: "placed h t" and idx: "index < length (m_dir t)"
    and a: "m_dir t ! index = Some a"
  shows "placed h (split_state h index a t)"
  unfolding placed_def
proof (intro allI impI ballI)
  let ?t = "split_state h index a t"
  let ?d0 = "m_depth (heap t ! a)"
  let ?L = "length (heap t)"
  fix i c it
  assume "i < length (m_dir ?t)" and c: "m_dir ?t ! i = Some c"
    and it: "it \<in> set (m_list (heap ?t ! c))"
  then have i: "i < length (m_dir t)" by simp
  from inv idx obtain a' where a': "m_dir t ! index = Some a'" "a' < ?L"
    "length (m_list (heap t ! a')) \<le> m_bucket_size t" "distinct (map fst (m_list (heap t ! a')))"
    by (rule dir_invD) blast
  with a have [simp]: "a' = a" by simp
  from a' have aL: "a < ?L" and sz: "length (m_list (heap t ! a)) \<le> m_bucket_size t"
    and dist: "distinct (map fst (m_list (heap t ! a)))" by simp_all
  note lists = split_state_lists[OF aL dist sz, of h index]
  from inv i obtain b where b: "m_dir t ! i = Some b" "b < ?L"
    "\<And>j. j < length (m_dir t) \<Longrightarrow>
        m_dir t ! j = Some b \<longleftrightarrow> j mod 2 ^ m_depth (heap t ! b) = i mod 2 ^ m_depth (heap t ! b)"
    by (rule dir_invD) blast
  consider (other) "b \<noteq> a" | (hi) "b = a" "i mod 2 ^ Suc ?d0 = index mod 2 ^ Suc ?d0"
    | (lo) "b = a" "i mod 2 ^ Suc ?d0 \<noteq> index mod 2 ^ Suc ?d0" by blast
  then show "h (fst it) mod 2 ^ m_depth (heap ?t ! c) = i mod 2 ^ m_depth (heap ?t ! c)"
  proof cases
    case other
    with c b i have cb: "c = b" by (simp add: nth_split_state_dir)
    with other b aL have "heap ?t ! c = heap t ! b"
      by (simp add: split_state_heap)
    with it placedD[OF pl i b(1)] show ?thesis by simp
  next
    case hi
    with c b i have cb: "c = Suc ?L" by (simp add: nth_split_state_dir)
    with it lists(2) have "h (fst it) mod 2 ^ Suc ?d0 = index mod 2 ^ Suc ?d0" by simp
    with hi cb aL show ?thesis by (simp add: split_state_depth del: power_Suc)
  next
    case lo
    with c b i have cb: "c = ?L" by (simp add: nth_split_state_dir)
    with it lists(1) have ne: "h (fst it) mod 2 ^ Suc ?d0 \<noteq> index mod 2 ^ Suc ?d0"
      and mem: "it \<in> set (m_list (heap t ! a))" by simp_all
    from placedD[OF pl idx a mem] have h0: "h (fst it) mod 2 ^ ?d0 = index mod 2 ^ ?d0" .
    from b(3)[OF idx] a lo(1) have i0: "i mod 2 ^ ?d0 = index mod 2 ^ ?d0" by simp
    have "h (fst it) mod 2 ^ Suc ?d0 = i mod 2 ^ Suc ?d0"
      using h0 i0 ne lo(2) by (rule mod_pow_Suc_third)
    with cb aL show ?thesis by (simp add: split_state_depth del: power_Suc)
  qed
qed


section \<open>One iteration of the loop of \<open>Insert\<close>\<close>

lemma Insert_while_True:
  "a < length (heap t) \<Longrightarrow> Bucket_Insert key value (heap t ! a) = (True, b') \<Longrightarrow>
   Insert_while h key value t (Some a) = Inr (t\<lparr>heap := (heap t)[a := b']\<rparr>)"
  by (subst Insert_while.simps) (simp add: deref_def)

lemma Insert_while_False:
  "a < length (heap t) \<Longrightarrow> Bucket_Insert key value (heap t ! a) = (False, b') \<Longrightarrow>
   Insert_while h key value t (Some a) =
     (case SplitBucket h key (pre_split t a) of
        Inl e \<Rightarrow> Inl e
      | Inr t2 \<Rightarrow>
          (case IndexOf h key t2 of
             Inl e \<Rightarrow> Inl e
           | Inr index \<Rightarrow>
               (case vec_at (m_dir t2) index of
                  Inl e \<Rightarrow> Inl e
                | Inr bucket' \<Rightarrow> Insert_while h key value t2 bucket')))"
  by (subst Insert_while.simps) (simp add: deref_def pre_split_def GetDepth_def)

lemma pre_split_fields [simp]:
  "heap (pre_split t a) = heap t"
  "m_bucket_size (pre_split t a) = m_bucket_size t"
  "m_num_buckets (pre_split t a) = m_num_buckets t"
  by (simp_all add: pre_split_def DoubleDirectory_eq)

lemma dir_inv_pre_split: "dir_inv t \<Longrightarrow> dir_inv (pre_split t a)"
  unfolding pre_split_def by (simp only: dir_inv_double if_split) simp

lemma pre_split_addressed:
  assumes "dir_inv t" "m_dir t ! (h key mod 2 ^ m_global_depth t) = Some a"
  shows "m_dir (pre_split t a) ! (h key mod 2 ^ m_global_depth (pre_split t a)) = Some a"
    and "m_depth (heap t ! a) < m_global_depth (pre_split t a)"
    and "h key mod 2 ^ m_global_depth (pre_split t a) < length (m_dir (pre_split t a))"
proof -
  let ?g = "m_global_depth t"
  have len: "length (m_dir t) = 2 ^ ?g" using assms(1) by (rule dir_inv_length)
  have "h key mod 2 ^ ?g < length (m_dir t)" by (simp add: len)
  with assms(1) obtain a' where "m_dir t ! (h key mod 2 ^ ?g) = Some a'" "m_depth (heap t ! a') \<le> ?g"
    by (rule dir_invD) blast
  with assms(2) have le: "m_depth (heap t ! a) \<le> ?g" by simp
  then show "m_depth (heap t ! a) < m_global_depth (pre_split t a)"
    by (simp add: pre_split_def DoubleDirectory_eq)
  have "length (m_dir (pre_split t a)) = 2 ^ m_global_depth (pre_split t a)"
    using assms(1) by (intro dir_inv_length dir_inv_pre_split)
  then show "h key mod 2 ^ m_global_depth (pre_split t a) < length (m_dir (pre_split t a))"
    by simp
  show "m_dir (pre_split t a) ! (h key mod 2 ^ m_global_depth (pre_split t a)) = Some a"
  proof (cases "?g = m_depth (heap t ! a)")
    case False
    then show ?thesis using assms(2) by (simp add: pre_split_def)
  next
    case True
    let ?i = "h key mod 2 ^ Suc ?g"
    have "?i < 2 * 2 ^ ?g" by simp
    then have "(m_dir t @ m_dir t) ! ?i = m_dir t ! (?i mod 2 ^ ?g)"
      using nth_append_self[of ?i "m_dir t"] by (simp add: len del: power_Suc)
    also have "?i mod 2 ^ ?g = h key mod 2 ^ ?g" by (rule mod_pow_le) simp
    finally show ?thesis
      using True assms(2) by (simp add: pre_split_def DoubleDirectory_eq del: power_Suc)
  qed
qed

lemma placed_pre_split: "dir_inv t \<Longrightarrow> placed h t \<Longrightarrow> placed h (pre_split t a)"
  unfolding pre_split_def by (simp only: placed_double if_split) simp

lemma SplitBucket_pre_split:
  assumes "dir_inv t" "m_dir t ! (h key mod 2 ^ m_global_depth t) = Some a"
    and "SplitBucket h key (pre_split t a) = Inr t2"
  shows "t2 = split_state h (h key mod 2 ^ m_global_depth (pre_split t a)) a (pre_split t a)"
    and "dir_inv t2" and "m_global_depth t2 < 31" and "placed h t \<Longrightarrow> placed h t2"
proof -
  let ?p = "pre_split t a"
  note ad = pre_split_addressed[where h=h and key=key, OF assms(1,2)]
  from assms(3) ad(1) have g: "m_global_depth ?p < 31"
    and t2: "t2 = split_state h (h key mod 2 ^ m_global_depth ?p) a ?p"
    by (auto simp: SplitBucket_Inr)
  show "t2 = split_state h (h key mod 2 ^ m_global_depth ?p) a ?p" by fact
  show "dir_inv t2"
    unfolding t2 using dir_inv_pre_split[OF assms(1)] ad(3) ad(1)
    by (rule dir_inv_split) (use ad(2) in simp)
  show "m_global_depth t2 < 31" using g by (simp add: t2)
  show "placed h t2" if "placed h t"
    unfolding t2 using dir_inv_pre_split[OF assms(1)] placed_pre_split[OF assms(1) that] ad(3) ad(1)
    by (rule placed_split)
qed

section \<open>The bucket operations\<close>

lemma find_scan_overwrite:
  "overwrite_scan key value l = Some l' \<Longrightarrow>
   find_scan k v0 l' = (if k = key then (True, value) else find_scan k v0 l)"
  by (induction l arbitrary: l') (auto split: option.splits if_splits)

lemma find_scan_append:
  "find_scan k v0 (l @ [(key, value)]) =
     (if k \<in> fst ` set l then find_scan k v0 l
      else if k = key then (True, value) else (False, v0))"
proof (induction l)
  case Nil
  then show ?case by simp
next
  case (Cons it l)
  show ?case
  proof (cases "fst it = k")
    case True
    then show ?thesis by simp
  next
    case False
    then have "k \<in> fst ` set (it # l) \<longleftrightarrow> k \<in> fst ` set l" by auto
    with False Cons show ?thesis by simp
  qed
qed

lemma find_scan_absent: "k \<notin> fst ` set l \<Longrightarrow> find_scan k v0 l = (False, v0)"
  by (induction l) auto

lemma find_scan_found: "fst (find_scan k v0 l) \<longleftrightarrow> k \<in> fst ` set l"
  by (induction l) auto

lemma find_scan_value: "find_scan k v0 l = (True, v) \<Longrightarrow> (k, v) \<in> set l"
  by (induction l) (auto split: if_splits)

lemma find_scan_False: "find_scan k v0 l = (False, v) \<Longrightarrow> v = v0 \<and> k \<notin> fst ` set l"
  by (induction l) (auto split: if_splits)

lemma Bucket_Insert_True:
  assumes "Bucket_Insert key value b = (True, b')"
  shows "m_depth b' = m_depth b" "m_size b' = m_size b"
    "distinct (map fst (m_list b)) \<Longrightarrow> distinct (map fst (m_list b'))"
    "length (m_list b) \<le> m_size b \<Longrightarrow> length (m_list b') \<le> m_size b'"
    "find_scan k v0 (m_list b') = (if k = key then (True, value) else find_scan k v0 (m_list b))"
proof -
  show "m_depth b' = m_depth b" "m_size b' = m_size b"
    using assms by (auto simp: Bucket_Insert_def split: option.splits if_splits)
  show "distinct (map fst (m_list b)) \<Longrightarrow> distinct (map fst (m_list b'))"
    using assms overwrite_scan_Some[of key "value" "m_list b"] overwrite_scan_None[of key "value" "m_list b"]
    by (auto simp: Bucket_Insert_def split: option.splits if_splits)
  show "length (m_list b) \<le> m_size b \<Longrightarrow> length (m_list b') \<le> m_size b'"
    using assms overwrite_scan_Some[of key "value" "m_list b", THEN arg_cong, of _ length]
    by (auto simp: Bucket_Insert_def IsFull_def split: option.splits if_splits)
  show "find_scan k v0 (m_list b') = (if k = key then (True, value) else find_scan k v0 (m_list b))"
    using assms overwrite_scan_None[of key "value" "m_list b"]
    by (auto simp: Bucket_Insert_def find_scan_overwrite find_scan_append find_scan_absent
        split: option.splits if_splits)
qed

lemma overwrite_scan_set:
  "overwrite_scan key value l = Some l' \<Longrightarrow> set l' \<subseteq> insert (key, value) (set l)"
  by (induction l arbitrary: l') (auto split: option.splits if_splits)

lemma Bucket_Insert_set:
  "Bucket_Insert key value b = (True, b') \<Longrightarrow> set (m_list b') \<subseteq> insert (key, value) (set (m_list b))"
  using overwrite_scan_set[of key "value" "m_list b"]
  by (auto simp: Bucket_Insert_def split: option.splits if_splits)

lemma Bucket_Insert_False:
  "Bucket_Insert key value b = (False, b') \<longleftrightarrow>
     b' = b \<and> key \<notin> fst ` set (m_list b) \<and> length (m_list b) = m_size b"
  using overwrite_scan_None[of key "value" "m_list b"]
  by (auto simp: Bucket_Insert_def IsFull_def split: option.splits)

lemma remove_scan_flag: "fst (remove_scan key l) \<longleftrightarrow> key \<in> fst ` set l"
  by (induction l) (auto simp: image_iff split: prod.splits)

lemma remove_scan_absent: "key \<notin> fst ` set l \<Longrightarrow> remove_scan key l = (False, l)"
  by (induction l) (auto simp: image_iff split: prod.splits)

lemma remove_scan_set: "set (snd (remove_scan key l)) \<subseteq> set l"
  by (induction l) (auto split: prod.splits)

lemma remove_scan_length: "length (snd (remove_scan key l)) \<le> length l"
  by (induction l) (auto split: prod.splits)

lemma remove_scan_distinct:
  "distinct (map fst l) \<Longrightarrow>
   distinct (map fst (snd (remove_scan key l))) \<and> key \<notin> fst ` set (snd (remove_scan key l))"
proof (induction l)
  case Nil
  then show ?case by simp
next
  case (Cons it l)
  have sub: "fst ` set (snd (remove_scan key l)) \<subseteq> fst ` set l"
    using remove_scan_set[of key l] by blast
  show ?case
  proof (cases "fst it = key")
    case True
    with Cons.prems show ?thesis by simp
  next
    case False
    from Cons.prems have "fst it \<notin> fst ` set l" "distinct (map fst l)" by simp_all
    with sub Cons.IH have "fst it \<notin> fst ` set (snd (remove_scan key l))"
      "distinct (map fst (snd (remove_scan key l)))" "key \<notin> fst ` set (snd (remove_scan key l))"
      by blast+
    with False show ?thesis by (simp add: split_beta)
  qed
qed

lemma find_scan_remove:
  "k \<noteq> key \<Longrightarrow> find_scan k v0 (snd (remove_scan key l)) = find_scan k v0 l"
  by (induction l) (auto split: prod.splits)

lemma remove_scan_facts:
  assumes "remove_scan key l = (r, l')"
  shows "r \<longleftrightarrow> key \<in> fst ` set l" "\<not> r \<Longrightarrow> l' = l" "length l' \<le> length l"
    "distinct (map fst l) \<Longrightarrow> distinct (map fst l') \<and> key \<notin> fst ` set l'"
    "k \<noteq> key \<Longrightarrow> find_scan k v0 l' = find_scan k v0 l"
proof -
  from assms have r: "r = fst (remove_scan key l)" and l': "l' = snd (remove_scan key l)"
    by simp_all
  show "r \<longleftrightarrow> key \<in> fst ` set l" unfolding r by (rule remove_scan_flag)
  then show "\<not> r \<Longrightarrow> l' = l" using remove_scan_absent[of key l] assms by simp
  show "length l' \<le> length l" unfolding l' by (rule remove_scan_length)
  show "distinct (map fst l) \<Longrightarrow> distinct (map fst l') \<and> key \<notin> fst ` set l'"
    unfolding l' by (rule remove_scan_distinct)
  show "k \<noteq> key \<Longrightarrow> find_scan k v0 l' = find_scan k v0 l"
    unfolding l' by (rule find_scan_remove)
qed

lemma Bucket_Remove_facts:
  assumes "Bucket_Remove key b = (r, b')"
  shows "m_depth b' = m_depth b" "m_size b' = m_size b"
    "r \<longleftrightarrow> key \<in> fst ` set (m_list b)" "\<not> r \<Longrightarrow> b' = b"
    "length (m_list b') \<le> length (m_list b)"
    "distinct (map fst (m_list b)) \<Longrightarrow> distinct (map fst (m_list b')) \<and> key \<notin> fst ` set (m_list b')"
    "k \<noteq> key \<Longrightarrow> find_scan k v0 (m_list b') = find_scan k v0 (m_list b)"
proof -
  obtain l' where l': "remove_scan key (m_list b) = (r, l')" and b': "b' = b\<lparr>m_list := l'\<rparr>"
    using assms by (auto simp: Bucket_Remove_def split: prod.splits)
  note f = remove_scan_facts[OF l']
  show "m_depth b' = m_depth b" "m_size b' = m_size b" by (simp_all add: b')
  show "r \<longleftrightarrow> key \<in> fst ` set (m_list b)" by (rule f(1))
  show "\<not> r \<Longrightarrow> b' = b" using f(2) by (simp add: b')
  show "length (m_list b') \<le> length (m_list b)" using f(3) by (simp add: b')
  show "distinct (map fst (m_list b)) \<Longrightarrow> distinct (map fst (m_list b')) \<and> key \<notin> fst ` set (m_list b')"
    using f(4) by (simp add: b')
  show "k \<noteq> key \<Longrightarrow> find_scan k v0 (m_list b') = find_scan k v0 (m_list b)"
    using f(5)[of k v0] by (simp add: b')
qed

lemma Bucket_Remove_set: "set (m_list (snd (Bucket_Remove key b))) \<subseteq> set (m_list b)"
  using remove_scan_set[of key "m_list b"] by (simp add: Bucket_Remove_def split_beta)

lemma placed_heap_update:
  assumes "dir_inv t" "placed h t" "m_depth b' = m_depth (heap t ! a)"
    and "\<forall>it \<in> set (m_list b'). it \<in> set (m_list (heap t ! a)) \<or>
           m_dir t ! (h (fst it) mod 2 ^ m_global_depth t) = Some a"
  shows "placed h (t\<lparr>heap := (heap t)[a := b']\<rparr>)"
  unfolding placed_def
proof (intro allI impI ballI)
  let ?t = "t\<lparr>heap := (heap t)[a := b']\<rparr>"
  let ?g = "m_global_depth t"
  fix i c it
  assume "i < length (m_dir ?t)" and c: "m_dir ?t ! i = Some c"
    and it: "it \<in> set (m_list (heap ?t ! c))"
  then have i: "i < length (m_dir t)" and c': "m_dir t ! i = Some c" by simp_all
  from assms(1) i obtain c2 where c2: "m_dir t ! i = Some c2" "c2 < length (heap t)"
    "m_depth (heap t ! c2) \<le> ?g"
    "\<And>j. j < length (m_dir t) \<Longrightarrow>
        m_dir t ! j = Some c2 \<longleftrightarrow> j mod 2 ^ m_depth (heap t ! c2) = i mod 2 ^ m_depth (heap t ! c2)"
    by (rule dir_invD) blast
  with c' have [simp]: "c2 = c" by simp
  show "h (fst it) mod 2 ^ m_depth (heap ?t ! c) = i mod 2 ^ m_depth (heap ?t ! c)"
  proof (cases "c = a")
    case False
    with it placedD[OF assms(2) i c'] show ?thesis by simp
  next
    case True
    with it c2(2) have itb: "it \<in> set (m_list b')" by simp
    have d: "m_depth (heap ?t ! c) = m_depth (heap t ! a)"
      using True c2(2) assms(3) by simp
    from itb assms(4) consider "it \<in> set (m_list (heap t ! a))"
      | "m_dir t ! (h (fst it) mod 2 ^ ?g) = Some a" by blast
    then show ?thesis
    proof cases
      case 1
      with placedD[OF assms(2) i c'] True d show ?thesis by simp
    next
      case 2
      have "h (fst it) mod 2 ^ ?g < length (m_dir t)"
        by (simp add: dir_inv_length[OF assms(1)])
      from c2(4)[OF this] 2 True
      have "h (fst it) mod 2 ^ ?g mod 2 ^ m_depth (heap t ! a) = i mod 2 ^ m_depth (heap t ! a)"
        by simp
      with c2(3) True d show ?thesis by (simp add: mod_pow_le)
    qed
  qed
qed

lemma dir_inv_heap_update:
  assumes "dir_inv t" "m_depth b' = m_depth (heap t ! a)" "m_size b' = m_size (heap t ! a)"
    "length (m_list b') \<le> m_size b'" "distinct (map fst (m_list b'))"
  shows "dir_inv (t\<lparr>heap := (heap t)[a := b']\<rparr>)"
  unfolding dir_inv_def
proof (intro conjI allI impI)
  let ?t = "t\<lparr>heap := (heap t)[a := b']\<rparr>"
  show "length (m_dir ?t) = 2 ^ m_global_depth ?t"
    using assms(1) by (simp add: dir_inv_length)
  fix i assume "i < length (m_dir ?t)"
  then have "i < length (m_dir t)" by simp
  with assms(1) have "\<exists>c. slot_ok t i c" by (simp add: dir_inv_def)
  then obtain c where c: "slot_ok t i c" ..
  have "slot_ok ?t i c"
  proof (cases "c = a")
    case True
    with c assms(2-) show ?thesis by (simp add: slot_ok_def)
  next
    case False
    with c show ?thesis by (simp add: slot_ok_def)
  qed
  then show "\<exists>c. slot_ok ?t i c" ..
qed

section \<open>A proof rule for the loop of \<open>Insert\<close>\<close>

lemma table_inv_addressed:
  assumes "table_inv h t"
  obtains a where "m_dir t ! (h key mod 2 ^ m_global_depth t) = Some a" "a < length (heap t)"
    "IndexOf h key t = Inr (h key mod 2 ^ m_global_depth t)"
    "h key mod 2 ^ m_global_depth t < length (m_dir t)"
    "m_size (heap t ! a) = m_bucket_size t" "length (m_list (heap t ! a)) \<le> m_bucket_size t"
    "distinct (map fst (m_list (heap t ! a)))" "m_depth (heap t ! a) \<le> m_global_depth t"
proof -
  from assms have d: "dir_inv t" and g: "m_global_depth t < 31" by (simp_all add: table_inv_def)
  have i: "h key mod 2 ^ m_global_depth t < length (m_dir t)"
    by (simp add: dir_inv_length[OF d])
  from d i obtain a where "m_dir t ! (h key mod 2 ^ m_global_depth t) = Some a" "a < length (heap t)"
    "m_size (heap t ! a) = m_bucket_size t" "length (m_list (heap t ! a)) \<le> m_bucket_size t"
    "distinct (map fst (m_list (heap t ! a)))" "m_depth (heap t ! a) \<le> m_global_depth t"
    by (rule dir_invD) blast
  then show ?thesis using that g i by (simp add: IndexOf_Inr)
qed

lemma Insert_while_rule:
  assumes ret: "Insert_while h key value t bucket = Inr t'"
    and inv: "table_inv h t" and bkt: "bucket = m_dir t ! (h key mod 2 ^ m_global_depth t)"
    and I: "I t"
    and step: "\<And>t a t2. table_inv h t \<Longrightarrow> I t \<Longrightarrow>
        m_dir t ! (h key mod 2 ^ m_global_depth t) = Some a \<Longrightarrow> a < length (heap t) \<Longrightarrow>
        Bucket_Insert key value (heap t ! a) = (False, heap t ! a) \<Longrightarrow>
        SplitBucket h key (pre_split t a) = Inr t2 \<Longrightarrow> table_inv h t2 \<Longrightarrow> I t2"
    and final: "\<And>t a b'. table_inv h t \<Longrightarrow> I t \<Longrightarrow>
        m_dir t ! (h key mod 2 ^ m_global_depth t) = Some a \<Longrightarrow> a < length (heap t) \<Longrightarrow>
        Bucket_Insert key value (heap t ! a) = (True, b') \<Longrightarrow> Q (t\<lparr>heap := (heap t)[a := b']\<rparr>)"
  shows "Q t'"
  using assms
proof (induction h key "value" t bucket rule: Insert_while.induct)
  case (1 h key "value" t bucket)
  note step = "1.prems"(5) and final = "1.prems"(6)
  from \<open>table_inv h t\<close> obtain a where a: "m_dir t ! (h key mod 2 ^ m_global_depth t) = Some a"
    "a < length (heap t)"
    by (rule table_inv_addressed[where h=h and key=key]) blast
  with "1.prems"(3) have bucket: "bucket = Some a" by simp
  have d: "deref t bucket = Inr a" using a bucket by (simp add: deref_Inr)
  obtain x b' where bi: "Bucket_Insert key value (heap t ! a) = (x, b')" by fastforce
  show ?case
  proof (cases x)
    case True
    with bi a "1.prems"(1) bucket have "t' = t\<lparr>heap := (heap t)[a := b']\<rparr>"
      by (simp add: Insert_while_True)
    with final[OF "1.prems"(2) "1.prems"(4) a] bi True show ?thesis by simp
  next
    case False
    with bi have b': "b' = heap t ! a" by (simp add: Bucket_Insert_False)
    from "1.prems"(1) bi False a bucket obtain t2 where
      t2: "SplitBucket h key (pre_split t a) = Inr t2"
      by (auto simp: Insert_while_False split: sum.splits)
    from "1.prems"(2) have dinv: "dir_inv t" and pl: "placed h t" by (simp_all add: table_inv_def)
    note sp = SplitBucket_pre_split[where h=h and key=key, OF dinv a(1) t2]
    from sp(2,3) sp(4)[OF pl] have inv2: "table_inv h t2" by (simp add: table_inv_def)
    from inv2 obtain a2 where a2: "m_dir t2 ! (h key mod 2 ^ m_global_depth t2) = Some a2"
      "IndexOf h key t2 = Inr (h key mod 2 ^ m_global_depth t2)"
      "h key mod 2 ^ m_global_depth t2 < length (m_dir t2)"
      by (rule table_inv_addressed[where h=h and key=key]) blast
    have I2: "I t2"
      using "1.prems"(2,4) a bi False b' t2 inv2 by (intro step[of t a t2]) simp_all
    have ret2: "Insert_while h key value t2 (Some a2) = Inr t'"
      using "1.prems"(1) bi False a bucket t2 a2
      by (simp add: Insert_while_False vec_at_def)
    have t1: "pre_split t a = (if m_global_depth t = GetDepth (heap t ! a)
                          then DoubleDirectory (t\<lparr>m_global_depth := m_global_depth t + 1\<rparr>)
                          else t)"
      by (simp add: pre_split_def GetDepth_def)
    have v: "vec_at (m_dir t2) (h key mod 2 ^ m_global_depth t2) = Inr (Some a2)"
      using a2 by (simp add: vec_at_def)
    have nx: "x = False" using False by simp
    have bk: "Some a2 = m_dir t2 ! (h key mod 2 ^ m_global_depth t2)" using a2 by simp
    show ?thesis
      by (rule "1.IH"[OF d bi[symmetric] nx t1 t2 a2(2) v ret2 inv2 bk I2 step final])
  qed
qed

section \<open>The invariant holds in every reachable state\<close>

lemma Insert_eq_while:
  assumes "table_inv h t"
  shows "Insert h key value t = Insert_while h key value t (m_dir t ! (h key mod 2 ^ m_global_depth t))"
proof -
  from assms obtain a where "IndexOf h key t = Inr (h key mod 2 ^ m_global_depth t)"
    "h key mod 2 ^ m_global_depth t < length (m_dir t)"
    by (rule table_inv_addressed[where h=h and key=key]) blast
  then show ?thesis by (simp add: Insert_def vec_at_def)
qed

lemma Insert_rule:
  assumes "Insert h key value t = Inr t'" "table_inv h t" "I t"
    and "\<And>t a t2. table_inv h t \<Longrightarrow> I t \<Longrightarrow>
        m_dir t ! (h key mod 2 ^ m_global_depth t) = Some a \<Longrightarrow> a < length (heap t) \<Longrightarrow>
        Bucket_Insert key value (heap t ! a) = (False, heap t ! a) \<Longrightarrow>
        SplitBucket h key (pre_split t a) = Inr t2 \<Longrightarrow> table_inv h t2 \<Longrightarrow> I t2"
    and "\<And>t a b'. table_inv h t \<Longrightarrow> I t \<Longrightarrow>
        m_dir t ! (h key mod 2 ^ m_global_depth t) = Some a \<Longrightarrow> a < length (heap t) \<Longrightarrow>
        Bucket_Insert key value (heap t ! a) = (True, b') \<Longrightarrow> Q (t\<lparr>heap := (heap t)[a := b']\<rparr>)"
  shows "Q t'"
proof (rule Insert_while_rule[where I=I and Q=Q])
  show "Insert_while h key value t (m_dir t ! (h key mod 2 ^ m_global_depth t)) = Inr t'"
    using assms(1,2) by (simp add: Insert_eq_while)
  show "table_inv h t" "I t" by fact+
  show "m_dir t ! (h key mod 2 ^ m_global_depth t) = m_dir t ! (h key mod 2 ^ m_global_depth t)" ..
qed (erule (6) assms(4), erule (4) assms(5))

lemma table_inv_store:
  assumes "table_inv h t"
    "m_depth b' = m_depth (heap t ! a)" "m_size b' = m_size (heap t ! a)"
    "length (m_list b') \<le> m_size b'" "distinct (map fst (m_list b'))"
    "\<forall>it \<in> set (m_list b'). it \<in> set (m_list (heap t ! a)) \<or>
           m_dir t ! (h (fst it) mod 2 ^ m_global_depth t) = Some a"
  shows "table_inv h (t\<lparr>heap := (heap t)[a := b']\<rparr>)"
  using assms dir_inv_heap_update[of t b' a] placed_heap_update[of t h b' a]
  by (simp add: table_inv_def)

lemma Insert_table_inv:
  assumes "Insert h key value t = Inr t'" "table_inv h t"
  shows "table_inv h t'"
  using assms
proof (rule Insert_rule[where I="\<lambda>_. True"])
  fix t :: "('a, 'b) ExtendibleHashTable" and a b'
  assume inv: "table_inv h t" and a: "m_dir t ! (h key mod 2 ^ m_global_depth t) = Some a"
    and bi: "Bucket_Insert key value (heap t ! a) = (True, b')"
  from inv obtain a' where a': "m_dir t ! (h key mod 2 ^ m_global_depth t) = Some a'"
    "m_size (heap t ! a') = m_bucket_size t" "length (m_list (heap t ! a')) \<le> m_bucket_size t"
    "distinct (map fst (m_list (heap t ! a')))"
    by (rule table_inv_addressed[where h=h and key=key]) blast
  with a have [simp]: "a' = a" by simp
  have "\<forall>it \<in> set (m_list b'). it \<in> set (m_list (heap t ! a)) \<or>
           m_dir t ! (h (fst it) mod 2 ^ m_global_depth t) = Some a"
    using Bucket_Insert_set[OF bi] a by auto
  with a' Bucket_Insert_True[OF bi] show "table_inv h (t\<lparr>heap := (heap t)[a := b']\<rparr>)"
    by (intro table_inv_store[OF inv]) simp_all
qed simp_all

lemma Remove_Inr:
  assumes "table_inv h t"
  obtains a where "m_dir t ! (h key mod 2 ^ m_global_depth t) = Some a" "a < length (heap t)"
    "Remove h key t = Inr (fst (Bucket_Remove key (heap t ! a)),
                           t\<lparr>heap := (heap t)[a := snd (Bucket_Remove key (heap t ! a))]\<rparr>)"
proof -
  from assms obtain a where a: "m_dir t ! (h key mod 2 ^ m_global_depth t) = Some a" "a < length (heap t)"
    "IndexOf h key t = Inr (h key mod 2 ^ m_global_depth t)"
    "h key mod 2 ^ m_global_depth t < length (m_dir t)"
    by (rule table_inv_addressed[where h=h and key=key]) blast
  then have "Remove h key t = Inr (fst (Bucket_Remove key (heap t ! a)),
                           t\<lparr>heap := (heap t)[a := snd (Bucket_Remove key (heap t ! a))]\<rparr>)"
    by (simp add: Remove_def vec_at_def deref_def split_beta)
  with a show ?thesis using that by blast
qed

lemma Remove_table_inv:
  assumes "Remove h key t = Inr (r, t')" "table_inv h t"
  shows "table_inv h t'"
proof -
  from assms(2) obtain a where a: "m_dir t ! (h key mod 2 ^ m_global_depth t) = Some a"
    "Remove h key t = Inr (fst (Bucket_Remove key (heap t ! a)),
                           t\<lparr>heap := (heap t)[a := snd (Bucket_Remove key (heap t ! a))]\<rparr>)"
    by (rule Remove_Inr[where h=h and key=key]) blast
  from assms(2) obtain a' where a': "m_dir t ! (h key mod 2 ^ m_global_depth t) = Some a'"
    "m_size (heap t ! a') = m_bucket_size t" "length (m_list (heap t ! a')) \<le> m_bucket_size t"
    "distinct (map fst (m_list (heap t ! a')))"
    by (rule table_inv_addressed[where h=h and key=key]) blast
  with a have [simp]: "a' = a" by simp
  obtain r' b' where br: "Bucket_Remove key (heap t ! a) = (r', b')" by fastforce
  with a(2) assms(1) have t': "t' = t\<lparr>heap := (heap t)[a := b']\<rparr>" by simp
  have "\<forall>it \<in> set (m_list b'). it \<in> set (m_list (heap t ! a)) \<or>
           m_dir t ! (h (fst it) mod 2 ^ m_global_depth t) = Some a"
    using Bucket_Remove_set[of key "heap t ! a"] br by auto
  with a' Bucket_Remove_facts[OF br] show ?thesis
    unfolding t' by (intro table_inv_store[OF assms(2)]) simp_all
qed

lemma table_inv_new: "table_inv h (ExtendibleHashTable_new n)"
  by (simp add: table_inv_def dir_inv_new placed_new) (simp add: ExtendibleHashTable_new_def)

lemma reachable_table_inv: "reachable h t \<Longrightarrow> table_inv h t"
proof (induction rule: reachable.induct)
  case (reachable_new bucket_size)
  show ?case by (rule table_inv_new)
next
  case (reachable_Insert t key "value" t')
  show ?case by (rule Insert_table_inv[OF reachable_Insert.hyps(2) reachable_Insert.IH])
next
  case (reachable_Remove t key r t')
  show ?case by (rule Remove_table_inv[OF reachable_Remove.hyps(2) reachable_Remove.IH])
qed

section \<open>The example table\<close>

lemma ex_table_steps:
  "Insert ex_hash 0 (10::nat) (ExtendibleHashTable_new 2) =
     Inr \<lparr>m_global_depth = 0, m_bucket_size = 2, m_num_buckets = 1, m_dir = [Some 0],
          heap = [\<lparr>m_size = 2, m_depth = 0, m_list = [(0, 10)]\<rparr>]\<rparr>"
  "Insert ex_hash 1 (11::nat)
     \<lparr>m_global_depth = 0, m_bucket_size = 2, m_num_buckets = 1, m_dir = [Some 0],
      heap = [\<lparr>m_size = 2, m_depth = 0, m_list = [(0, 10)]\<rparr>]\<rparr> =
     Inr \<lparr>m_global_depth = 0, m_bucket_size = 2, m_num_buckets = 1, m_dir = [Some 0],
          heap = [\<lparr>m_size = 2, m_depth = 0, m_list = [(0, 10), (1, 11)]\<rparr>]\<rparr>"
  "Insert ex_hash 2 (12::nat)
     \<lparr>m_global_depth = 0, m_bucket_size = 2, m_num_buckets = 1, m_dir = [Some 0],
      heap = [\<lparr>m_size = 2, m_depth = 0, m_list = [(0, 10), (1, 11)]\<rparr>]\<rparr> =
     Inr \<lparr>m_global_depth = 1, m_bucket_size = 2, m_num_buckets = 2,
          m_dir = [Some 2, Some 1],
          heap = [\<lparr>m_size = 2, m_depth = 1, m_list = [(0, 10), (1, 11)]\<rparr>,
                  \<lparr>m_size = 2, m_depth = 1, m_list = [(1, 11)]\<rparr>,
                  \<lparr>m_size = 2, m_depth = 1, m_list = [(0, 10), (2, 12)]\<rparr>]\<rparr>"
  "Insert ex_hash 4 (14::nat)
     \<lparr>m_global_depth = 1, m_bucket_size = 2, m_num_buckets = 2,
      m_dir = [Some 2, Some 1],
      heap = [\<lparr>m_size = 2, m_depth = 1, m_list = [(0, 10), (1, 11)]\<rparr>,
              \<lparr>m_size = 2, m_depth = 1, m_list = [(1, 11)]\<rparr>,
              \<lparr>m_size = 2, m_depth = 1, m_list = [(0, 10), (2, 12)]\<rparr>]\<rparr> =
     Inr ex_table"
  by code_simp+

lemma ex_table_reachable: "reachable ex_hash ex_table"
  by (rule reachable_Insert[OF reachable_Insert[OF reachable_Insert[OF reachable_Insert[OF reachable_new]]]])
     (rule ex_table_steps)+

lemma ex_table_8_step: "Insert ex_hash 8 18 ex_table = Inr ex_table_8"
  by code_simp

lemma ex_clustered_steps:
  "Insert ex_hash 0 (1::nat) (ExtendibleHashTable_new 2) =
     Inr \<lparr>m_global_depth = 0, m_bucket_size = 2, m_num_buckets = 1, m_dir = [Some 0],
          heap = [\<lparr>m_size = 2, m_depth = 0, m_list = [(0, 1)]\<rparr>]\<rparr>"
  "Insert ex_hash (2 ^ 30) (2::nat)
     \<lparr>m_global_depth = 0, m_bucket_size = 2, m_num_buckets = 1, m_dir = [Some 0],
      heap = [\<lparr>m_size = 2, m_depth = 0, m_list = [(0, 1)]\<rparr>]\<rparr> = Inr ex_clustered"
  by (simp_all add: Insert_def IndexOf_def depth_mask_def vec_at_def Insert_while.simps deref_def
      Bucket_Insert_def IsFull_def ex_clustered_def ex_hash_def ExtendibleHashTable_new_def
      Bucket_new_def)

lemma ex_clustered_reachable: "reachable ex_hash ex_clustered"
  by (rule reachable_Insert[OF reachable_Insert[OF reachable_new]]) (rule ex_clustered_steps)+

lemma ex_single_step: "Insert ex_hash 5 50 (ExtendibleHashTable_new 1) = Inr ex_single"
  by code_simp

lemma ex_single_reachable: "reachable ex_hash ex_single"
  by (rule reachable_Insert[OF reachable_new]) (rule ex_single_step)

section \<open>Counting the slots of a bucket\<close>

lemma card_residue_class:
  assumes "d \<le> g" "r < 2 ^ d"
  shows "card {j::nat. j < 2 ^ g \<and> j mod 2 ^ d = r} = 2 ^ (g - d)"
proof -
  have g: "(2::nat) ^ g = 2 ^ d * 2 ^ (g - d)"
    using assms(1) by (simp flip: power_add)
  have "{j::nat. j < 2 ^ g \<and> j mod 2 ^ d = r} = (\<lambda>q. r + q * 2 ^ d) ` {..<2 ^ (g - d)}"
  proof (intro set_eqI iffI)
    fix j assume "j \<in> {j::nat. j < 2 ^ g \<and> j mod 2 ^ d = r}"
    then have j: "j < 2 ^ d * 2 ^ (g - d)" "j mod 2 ^ d = r" by (simp_all add: g)
    then have "j div 2 ^ d < 2 ^ (g - d)"
      by (simp add: less_mult_imp_div_less mult.commute)
    moreover have "j = r + (j div 2 ^ d) * 2 ^ d"
      using j(2) div_mult_mod_eq[of j "2 ^ d"] by simp
    ultimately show "j \<in> (\<lambda>q. r + q * 2 ^ d) ` {..<2 ^ (g - d)}" by blast
  next
    fix j assume "j \<in> (\<lambda>q. r + q * 2 ^ d) ` {..<2 ^ (g - d)}"
    then obtain q where q: "q < 2 ^ (g - d)" "j = r + q * 2 ^ d" by blast
    then have "Suc q \<le> 2 ^ (g - d)" by simp
    then have "Suc q * 2 ^ d \<le> 2 ^ (g - d) * 2 ^ d" by (rule mult_le_mono1)
    with q(2) assms(2) have "j < 2 ^ g" by (simp add: g mult.commute)
    moreover have "j mod 2 ^ d = r" using q(2) assms(2) by simp
    ultimately show "j \<in> {j::nat. j < 2 ^ g \<and> j mod 2 ^ d = r}" by simp
  qed
  moreover have "inj_on (\<lambda>q. r + q * 2 ^ d) {..<(2::nat) ^ (g - d)}"
    by (rule inj_onI) simp
  ultimately show ?thesis by (simp add: card_image)
qed

lemma count_list_card: "count_list xs x = card {i. i < length xs \<and> xs ! i = x}"
  by (simp add: count_list_eq_length_filter length_filter_conv_card) metis

lemma size_t_of_int_nat: "i < 2 ^ 64 \<Longrightarrow> size_t_of_int (int i) = i"
  unfolding size_t_of_int_def
  by (metis nat_int of_nat_numeral of_nat_power zmod_int mod_less)

lemma GetLocalDepth_in_range:
  assumes "table_inv h t" "i < length (m_dir t)"
  obtains a where "m_dir t ! i = Some a" "a < length (heap t)"
    "GetLocalDepth t (int i) = Inr (m_depth (heap t ! a))"
proof -
  from assms(1) have d: "dir_inv t" and g: "m_global_depth t < 31" by (simp_all add: table_inv_def)
  from d assms(2) obtain a where a: "m_dir t ! i = Some a" "a < length (heap t)"
    by (rule dir_invD) blast
  have "(2::nat) ^ m_global_depth t \<le> 2 ^ 64"
    using g by (intro power_increasing) simp_all
  with assms(2) have "i < 2 ^ 64" by (simp add: dir_inv_length[OF d])
  then have "size_t_of_int (int i) = i" by (rule size_t_of_int_nat)
  with a assms(2) have "GetLocalDepth t (int i) = Inr (m_depth (heap t ! a))"
    by (simp add: GetLocalDepth_def vec_at_def deref_def GetDepth_def)
  with a show ?thesis using that by blast
qed

section \<open>\<open>Find\<close> and the content of the table\<close>

lemma find_scan_distinct:
  "distinct (map fst l) \<Longrightarrow> (key, v) \<in> set l \<Longrightarrow> find_scan key v0 l = (True, v)"
proof (induction l)
  case Nil
  then show ?case by simp
next
  case (Cons it l)
  show ?case
  proof (cases "fst it = key")
    case True
    with Cons.prems have "it = (key, v)"
      by (cases it) (auto simp: image_iff)
    then show ?thesis by simp
  next
    case False
    with Cons show ?thesis by auto
  qed
qed

lemma table_inv_Find:
  assumes "table_inv h t"
  obtains a where "m_dir t ! (h key mod 2 ^ m_global_depth t) = Some a" "a < length (heap t)"
    "Find h key v0 t = Inr (find_scan key v0 (m_list (heap t ! a)))"
    "distinct (map fst (m_list (heap t ! a)))"
proof -
  from assms obtain a where a: "m_dir t ! (h key mod 2 ^ m_global_depth t) = Some a" "a < length (heap t)"
    "IndexOf h key t = Inr (h key mod 2 ^ m_global_depth t)"
    "h key mod 2 ^ m_global_depth t < length (m_dir t)"
    "distinct (map fst (m_list (heap t ! a)))"
    by (rule table_inv_addressed[where h=h and key=key]) blast
  then have "Find h key v0 t = Inr (find_scan key v0 (m_list (heap t ! a)))"
    by (simp add: Find_def vec_at_def deref_def Bucket_Find_def)
  with a show ?thesis using that by blast
qed

lemma addressed_in_entries:
  assumes "table_inv h t" "m_dir t ! (h key mod 2 ^ m_global_depth t) = Some a"
  shows "set (m_list (heap t ! a)) \<subseteq> table_entries t"
proof -
  from assms(1) have "h key mod 2 ^ m_global_depth t < length (m_dir t)"
    by (simp add: table_inv_def dir_inv_length)
  then have "Some a \<in> set (m_dir t)"
    using assms(2) nth_mem by fastforce
  then show ?thesis
    unfolding table_entries_def by force
qed

lemma entry_in_addressed:
  assumes inv: "table_inv h t" and e: "(key, v) \<in> table_entries t"
    and a: "m_dir t ! (h key mod 2 ^ m_global_depth t) = Some a"
  shows "(key, v) \<in> set (m_list (heap t ! a))"
proof -
  let ?g = "m_global_depth t"
  from inv have dinv: "dir_inv t" and pl: "placed h t" by (simp_all add: table_inv_def)
  from e obtain c where "Some c \<in> set (m_dir t)" and mem: "(key, v) \<in> set (m_list (heap t ! c))"
    unfolding table_entries_def by (auto split: option.splits)
  then obtain i where i: "i < length (m_dir t)" "m_dir t ! i = Some c"
    by (auto simp: in_set_conv_nth)
  from dinv i(1) obtain c' where c': "m_dir t ! i = Some c'" "m_depth (heap t ! c') \<le> ?g"
    "\<And>j. j < length (m_dir t) \<Longrightarrow>
        m_dir t ! j = Some c' \<longleftrightarrow> j mod 2 ^ m_depth (heap t ! c') = i mod 2 ^ m_depth (heap t ! c')"
    by (rule dir_invD) blast
  with i(2) have [simp]: "c' = c" by simp
  from placedD[OF pl i mem] have "h key mod 2 ^ m_depth (heap t ! c) = i mod 2 ^ m_depth (heap t ! c)"
    by simp
  with c'(2) have "h key mod 2 ^ ?g mod 2 ^ m_depth (heap t ! c) = i mod 2 ^ m_depth (heap t ! c)"
    by (simp add: mod_pow_le)
  moreover have "h key mod 2 ^ ?g < length (m_dir t)"
    by (simp add: dir_inv_length[OF dinv])
  ultimately have "m_dir t ! (h key mod 2 ^ ?g) = Some c"
    using c'(3) by simp
  with a mem show ?thesis by simp
qed

lemma Find_present:
  assumes "table_inv h t" "(key, v) \<in> table_entries t"
  shows "Find h key v0 t = Inr (True, v)"
proof -
  from assms(1) obtain a where a: "m_dir t ! (h key mod 2 ^ m_global_depth t) = Some a"
    "Find h key v0 t = Inr (find_scan key v0 (m_list (heap t ! a)))"
    "distinct (map fst (m_list (heap t ! a)))"
    by (rule table_inv_Find[where h=h and key=key]) blast
  from entry_in_addressed[OF assms a(1)] a(3) have "find_scan key v0 (m_list (heap t ! a)) = (True, v)"
    by (rule find_scan_distinct[rotated])
  with a(2) show ?thesis by simp
qed

lemma Find_absent:
  assumes "table_inv h t" "key \<notin> fst ` table_entries t"
  shows "Find h key v0 t = Inr (False, v0)"
proof -
  from assms(1) obtain a where a: "m_dir t ! (h key mod 2 ^ m_global_depth t) = Some a"
    "Find h key v0 t = Inr (find_scan key v0 (m_list (heap t ! a)))"
    by (rule table_inv_Find[where h=h and key=key]) blast
  from addressed_in_entries[OF assms(1) a(1)] assms(2) have "key \<notin> fst ` set (m_list (heap t ! a))"
    by blast
  then show ?thesis using a(2) by (simp add: find_scan_absent)
qed

lemma Find_True_entry:
  assumes "table_inv h t" "Find h key v0 t = Inr (True, v)"
  shows "(key, v) \<in> table_entries t"
proof -
  from assms(1) obtain a where a: "m_dir t ! (h key mod 2 ^ m_global_depth t) = Some a"
    "Find h key v0 t = Inr (find_scan key v0 (m_list (heap t ! a)))"
    by (rule table_inv_Find[where h=h and key=key]) blast
  with assms(2) have "(key, v) \<in> set (m_list (heap t ! a))"
    by (simp add: find_scan_value)
  with addressed_in_entries[OF assms(1) a(1)] show ?thesis by blast
qed

lemma IndexOf_heap_update [simp]: "IndexOf h k (t\<lparr>heap := x\<rparr>) = IndexOf h k t"
  by (simp add: IndexOf_def)

lemma Find_store:
  assumes inv: "table_inv h t" and a: "m_dir t ! (h key mod 2 ^ m_global_depth t) = Some a"
    and b': "m_depth b' = m_depth (heap t ! a)"
  shows "Find h k v0 (t\<lparr>heap := (heap t)[a := b']\<rparr>) =
           (if m_dir t ! (h k mod 2 ^ m_global_depth t) = Some a
            then Inr (find_scan k v0 (m_list b')) else Find h k v0 t)"
proof -
  from inv obtain c where c: "m_dir t ! (h k mod 2 ^ m_global_depth t) = Some c" "c < length (heap t)"
    "IndexOf h k t = Inr (h k mod 2 ^ m_global_depth t)"
    "h k mod 2 ^ m_global_depth t < length (m_dir t)"
    by (rule table_inv_addressed[where h=h and key=k]) blast
  then show ?thesis
    by (simp add: Find_def vec_at_def deref_def Bucket_Find_def)
qed

lemma Insert_Find_same:
  assumes "Insert h key value t = Inr t'" "table_inv h t"
  shows "Find h key v0 t' = Inr (True, value)"
  using assms
proof (rule Insert_rule[where I="\<lambda>_. True"])
  fix t :: "('a, 'b) ExtendibleHashTable" and a b'
  assume inv: "table_inv h t" and a: "m_dir t ! (h key mod 2 ^ m_global_depth t) = Some a"
    and bi: "Bucket_Insert key value (heap t ! a) = (True, b')"
  from Bucket_Insert_True[OF bi] Find_store[OF inv a, of b' key v0]
  show "Find h key v0 (t\<lparr>heap := (heap t)[a := b']\<rparr>) = Inr (True, value)"
    using a by simp
qed simp_all

lemma find_scan_filter:
  "(\<And>v. P (k, v)) \<Longrightarrow> find_scan k v0 (filter P l) = find_scan k v0 l"
  by (induction l) auto

lemma pre_split_dir:
  assumes "dir_inv t"
  shows "m_dir (pre_split t a) ! (x mod 2 ^ m_global_depth (pre_split t a)) =
         m_dir t ! (x mod 2 ^ m_global_depth t)"
proof (cases "m_global_depth t = m_depth (heap t ! a)")
  case False
  then show ?thesis by (simp add: pre_split_def)
next
  case True
  let ?g = "m_global_depth t"
  have len: "length (m_dir t) = 2 ^ ?g" using assms by (rule dir_inv_length)
  have "x mod 2 ^ Suc ?g < 2 * length (m_dir t)" by (simp add: len)
  then have "(m_dir t @ m_dir t) ! (x mod 2 ^ Suc ?g) = m_dir t ! (x mod 2 ^ Suc ?g mod 2 ^ ?g)"
    using nth_append_self[of "x mod 2 ^ Suc ?g" "m_dir t"] by (simp add: len del: power_Suc)
  also have "x mod 2 ^ Suc ?g mod 2 ^ ?g = x mod 2 ^ ?g" by (rule mod_pow_le) simp
  finally show ?thesis
    using True by (simp add: pre_split_def DoubleDirectory_eq del: power_Suc)
qed

lemma Find_split:
  assumes inv: "table_inv h t" and a: "m_dir t ! (h key mod 2 ^ m_global_depth t) = Some a"
    and sp: "SplitBucket h key (pre_split t a) = Inr t2"
  shows "Find h k v0 t2 = Find h k v0 t"
proof -
  let ?p = "pre_split t a"
  let ?g = "m_global_depth ?p"
  let ?d0 = "m_depth (heap t ! a)"
  let ?L = "length (heap t)"
  let ?idx = "h key mod 2 ^ ?g"
  let ?ik = "h k mod 2 ^ ?g"
  from inv have dinv: "dir_inv t" and pl: "placed h t" by (simp_all add: table_inv_def)
  note s = SplitBucket_pre_split[where h=h and key=key, OF dinv a sp]
  note ad = pre_split_addressed[where h=h and key=key, OF dinv a]
  from s(2,3) s(4)[OF pl] have inv2: "table_inv h t2" by (simp add: table_inv_def)
  have g2: "m_global_depth t2 = ?g" by (simp add: s(1))
  from inv obtain c where c: "m_dir t ! (h k mod 2 ^ m_global_depth t) = Some c" "c < ?L"
    "Find h k v0 t = Inr (find_scan k v0 (m_list (heap t ! c)))"
    by (rule table_inv_Find[where h=h and key=k]) blast
  from inv2 obtain c2 where c2: "m_dir t2 ! ?ik = Some c2"
    "Find h k v0 t2 = Inr (find_scan k v0 (m_list (heap t2 ! c2)))"
    unfolding g2[symmetric] by (rule table_inv_Find[where h=h and key=k]) blast
  have pc: "m_dir ?p ! ?ik = Some c"
    using pre_split_dir[OF dinv, of a "h k"] c(1) by simp
  have ikl: "?ik < length (m_dir ?p)"
    using dir_inv_length[OF dir_inv_pre_split[OF dinv, of a]] by simp
  from inv obtain a' where a': "m_dir t ! (h key mod 2 ^ m_global_depth t) = Some a'" "a' < ?L"
    "length (m_list (heap t ! a')) \<le> m_bucket_size t" "distinct (map fst (m_list (heap t ! a')))"
    by (rule table_inv_addressed[where h=h and key=key]) blast
  with a have [simp]: "a' = a" by simp
  from a' have aL: "a < length (heap ?p)" and sz: "length (m_list (heap ?p ! a)) \<le> m_bucket_size ?p"
    and dist: "distinct (map fst (m_list (heap ?p ! a)))" by simp_all
  note lists = split_state_lists[OF aL dist sz, of h ?idx, folded s(1)]
  have nth: "m_dir t2 ! ?ik =
      (if c = a then (if ?ik mod 2 ^ Suc ?d0 \<noteq> ?idx mod 2 ^ Suc ?d0 then Some ?L else Some (Suc ?L))
       else Some c)"
    unfolding s(1) using nth_split_state_dir[OF ikl, of h ?idx a] pc by simp
  have hk: "h k mod 2 ^ Suc ?d0 = ?ik mod 2 ^ Suc ?d0"
    using ad(2) by (intro mod_pow_le[symmetric]) simp
  consider (other) "c \<noteq> a" | (lo) "c = a" "?ik mod 2 ^ Suc ?d0 \<noteq> ?idx mod 2 ^ Suc ?d0"
    | (hi) "c = a" "?ik mod 2 ^ Suc ?d0 = ?idx mod 2 ^ Suc ?d0" by blast
  then have "find_scan k v0 (m_list (heap t2 ! c2)) = find_scan k v0 (m_list (heap t ! c))"
  proof cases
    case other
    with nth c2(1) have "c2 = c" by simp
    moreover have "heap t2 ! c = heap ?p ! c"
      unfolding s(1) using aL c(2) other by (intro split_state_heap(1)) simp_all
    ultimately show ?thesis by simp
  next
    case lo
    with nth c2(1) have "c2 = ?L" by simp
    with lists(1) lo hk show ?thesis
      by (simp add: find_scan_filter del: power_Suc)
  next
    case hi
    with nth c2(1) have "c2 = Suc ?L" by simp
    with lists(2) hi hk show ?thesis
      by (simp add: find_scan_filter del: power_Suc)
  qed
  with c(3) c2(2) show ?thesis by simp
qed

lemma Insert_Find_other:
  assumes "Insert h k2 v2 t = Inr t'" "table_inv h t" "k1 \<noteq> k2"
  shows "Find h k1 v0 t' = Find h k1 v0 t"
proof -
  obtain r where r: "Find h k1 v0 t = r" by simp
  have "Find h k1 v0 t' = r"
    using assms(1,2) r
  proof (rule Insert_rule[where I="\<lambda>t. Find h k1 v0 t = r"])
    fix t :: "('a, 'b) ExtendibleHashTable" and a t2
    assume "table_inv h t" "Find h k1 v0 t = r" "m_dir t ! (h k2 mod 2 ^ m_global_depth t) = Some a"
      "SplitBucket h k2 (pre_split t a) = Inr t2"
    then show "Find h k1 v0 t2 = r" by (simp add: Find_split[where key=k2])
  next
    fix t :: "('a, 'b) ExtendibleHashTable" and a b'
    assume inv: "table_inv h t" and f: "Find h k1 v0 t = r"
      and a: "m_dir t ! (h k2 mod 2 ^ m_global_depth t) = Some a"
      and bi: "Bucket_Insert k2 v2 (heap t ! a) = (True, b')"
    from inv obtain c where c: "m_dir t ! (h k1 mod 2 ^ m_global_depth t) = Some c"
      "Find h k1 v0 t = Inr (find_scan k1 v0 (m_list (heap t ! c)))"
      by (rule table_inv_Find[where h=h and key=k1]) blast
    from Bucket_Insert_True[OF bi] Find_store[OF inv a, of b' k1 v0] c f assms(3)
    show "Find h k1 v0 (t\<lparr>heap := (heap t)[a := b']\<rparr>) = r"
      by auto
  qed
  with r show ?thesis by simp
qed

section \<open>Keys that no split separates\<close>

text \<open>
  The directory index uses at most the low 30 bits of a hash: a global depth of 31 is
  never reached by a call that returns. When the addressed bucket is full of keys that
  agree with the new key on these 30 bits, every split puts all of them into the bucket
  that the new key addresses, and the loop of \<open>Insert\<close> cannot be left through its condition.
  In the model, where no allocation fails, the loop ends at the mask of depth 31.
\<close>

lemma and_push_bit_mod: "x AND (2 ^ d - Suc 0) = x mod 2 ^ d"
  using and_mask_mod[of x d] by (simp add: mask_eq_exp_minus_1)

lemma push_bit_and_mod: "(2 ^ d - Suc 0) AND x = x mod 2 ^ d"
  using mask_and_mod[of d x] by (simp add: mask_eq_exp_minus_1)

lemma SplitBucket_Inl:
  assumes "dir_inv t" "m_dir t ! (h key mod 2 ^ m_global_depth t) = Some a"
    and "SplitBucket h key (pre_split t a) = Inl e"
  shows "e = UndefinedShift"
proof -
  let ?p = "pre_split t a"
  note ad = pre_split_addressed[where h=h and key=key, OF assms(1,2)]
  from assms(1) have "h key mod 2 ^ m_global_depth t < length (m_dir t)"
    by (simp add: dir_inv_length)
  with assms(1) obtain a' where "m_dir t ! (h key mod 2 ^ m_global_depth t) = Some a'"
    "a' < length (heap t)"
    by (rule dir_invD) blast
  with assms(2) have aL: "a < length (heap ?p)" by simp
  show ?thesis
  proof (cases "m_global_depth ?p < 31")
    case False
    then have "IndexOf h key ?p = Inl UndefinedShift" by (simp add: IndexOf_Inl)
    with assms(3) show ?thesis by (simp add: SplitBucket_def)
  next
    case True
    with ad(2) have "m_depth (heap ?p ! a) < 30" by simp
    with True ad(1,3) aL have "\<exists>t'. SplitBucket h key ?p = Inr t'"
      unfolding SplitBucket_Inr by blast
    with assms(3) show ?thesis by simp
  qed
qed

lemma Insert_while_clustered:
  assumes "table_inv h t" "bucket = Some a" "m_dir t ! (h key mod 2 ^ m_global_depth t) = Some a"
    and "length (m_list (heap t ! a)) = m_size (heap t ! a)"
    and "key \<notin> fst ` set (m_list (heap t ! a))"
    and "\<forall>it \<in> set (m_list (heap t ! a)). h (fst it) mod 2 ^ 30 = h key mod 2 ^ 30"
  shows "Insert_while h key value t bucket = Inl UndefinedShift"
  using assms
proof (induction h key "value" t bucket arbitrary: a rule: Insert_while.induct)
  case (1 h key "value" t bucket)
  let ?p = "pre_split t a"
  let ?L = "length (heap t)"
  let ?d0 = "m_depth (heap t ! a)"
  from "1.prems"(1) have dinv: "dir_inv t" and pl: "placed h t" by (simp_all add: table_inv_def)
  from "1.prems"(1) obtain a' where a': "m_dir t ! (h key mod 2 ^ m_global_depth t) = Some a'"
    "a' < ?L" "m_size (heap t ! a') = m_bucket_size t"
    "length (m_list (heap t ! a')) \<le> m_bucket_size t" "distinct (map fst (m_list (heap t ! a')))"
    by (rule table_inv_addressed[where h=h and key=key]) blast
  with "1.prems"(3) have [simp]: "a' = a" by simp
  from a' have aL: "a < ?L" by simp
  have bi: "Bucket_Insert key value (heap t ! a) = (False, heap t ! a)"
    using "1.prems"(4,5) by (simp add: Bucket_Insert_False)
  have d: "deref t bucket = Inr a" using aL "1.prems"(2) by (simp add: deref_Inr)
  have unfold: "Insert_while h key value t bucket =
     (case SplitBucket h key ?p of
        Inl e \<Rightarrow> Inl e
      | Inr t2 \<Rightarrow>
          (case IndexOf h key t2 of
             Inl e \<Rightarrow> Inl e
           | Inr index \<Rightarrow>
               (case vec_at (m_dir t2) index of
                  Inl e \<Rightarrow> Inl e
                | Inr bucket' \<Rightarrow> Insert_while h key value t2 bucket')))"
    unfolding "1.prems"(2) using aL bi by (rule Insert_while_False)
  show ?case
  proof (cases "SplitBucket h key ?p")
    case (Inl e)
    with SplitBucket_Inl[OF dinv "1.prems"(3) Inl] unfold show ?thesis by simp
  next
    case (Inr t2)
    note s = SplitBucket_pre_split[where h=h and key=key, OF dinv "1.prems"(3) Inr]
    note ad = pre_split_addressed[where h=h and key=key, OF dinv "1.prems"(3)]
    let ?idx = "h key mod 2 ^ m_global_depth ?p"
    from s(2,3) s(4)[OF pl] have inv2: "table_inv h t2" by (simp add: table_inv_def)
    have g2: "m_global_depth t2 = m_global_depth ?p" by (simp add: s(1))
    from a' have aLp: "a < length (heap ?p)" and sz: "length (m_list (heap ?p ! a)) \<le> m_bucket_size ?p"
      and dist: "distinct (map fst (m_list (heap ?p ! a)))" by simp_all
    note lists = split_state_lists[OF aLp dist sz, of h ?idx, folded s(1)]
    have nth: "m_dir t2 ! ?idx = Some (Suc ?L)"
      unfolding s(1) using nth_split_state_dir[OF ad(3), of h ?idx a] ad(1) by simp
    have idx2: "IndexOf h key t2 = Inr ?idx"
      using s(3) by (simp add: IndexOf_Inr g2)
    have v2: "vec_at (m_dir t2) ?idx = Inr (Some (Suc ?L))"
      using ad(3) nth by (simp add: vec_at_def s(1))
    have same: "h (fst it) mod 2 ^ Suc ?d0 = ?idx mod 2 ^ Suc ?d0"
      if "it \<in> set (m_list (heap t ! a))" for it
    proof -
      from ad(2) s(3) have le: "Suc ?d0 \<le> 30" by (simp add: g2)
      from that "1.prems"(6) have "h (fst it) mod 2 ^ 30 = h key mod 2 ^ 30" by blast
      with le have "h (fst it) mod 2 ^ Suc ?d0 = h key mod 2 ^ Suc ?d0"
        by (rule mod_pow_eq_le)
      also have "\<dots> = ?idx mod 2 ^ Suc ?d0"
        using ad(2) by (intro mod_pow_le[symmetric]) simp
      finally show ?thesis .
    qed
    then have l2: "m_list (heap t2 ! Suc ?L) = m_list (heap t ! a)"
      using lists(2) by (simp del: power_Suc)
    have sz2: "m_size (heap t2 ! Suc ?L) = m_size (heap t ! a)"
      unfolding s(1) using split_state_heap(3)[OF aLp, of h ?idx] a'(3) by simp
    have t1: "?p = (if m_global_depth t = GetDepth (heap t ! a)
                          then DoubleDirectory (t\<lparr>m_global_depth := m_global_depth t + 1\<rparr>)
                          else t)"
      by (simp add: pre_split_def GetDepth_def)
    have "Insert_while h key value t2 (Some (Suc ?L)) = Inl UndefinedShift"
    proof (rule "1.IH"[OF d bi[symmetric] _ t1 Inr idx2 v2 inv2 refl])
      show "m_dir t2 ! (h key mod 2 ^ m_global_depth t2) = Some (Suc ?L)"
        using nth by (simp add: g2)
      show "length (m_list (heap t2 ! Suc ?L)) = m_size (heap t2 ! Suc ?L)"
        using "1.prems"(4) by (simp add: l2 sz2)
      show "key \<notin> fst ` set (m_list (heap t2 ! Suc ?L))"
        using "1.prems"(5) by (simp add: l2)
      show "\<forall>it\<in>set (m_list (heap t2 ! Suc ?L)). h (fst it) mod 2 ^ 30 = h key mod 2 ^ 30"
        using "1.prems"(6) by (simp add: l2)
    qed simp
    with unfold Inr idx2 v2 show ?thesis by simp
  qed
qed

lemma Insert_clustered:
  assumes "table_inv h t" "m_dir t ! (h key mod 2 ^ m_global_depth t) = Some a"
    and "IsFull (heap t ! a)"
    and "key \<notin> fst ` set (m_list (heap t ! a))"
    and "\<forall>it \<in> set (m_list (heap t ! a)). h (fst it) mod 2 ^ 30 = h key mod 2 ^ 30"
  shows "Insert h key value t = Inl UndefinedShift"
  using Insert_while_clustered[OF assms(1) refl assms(2) _ assms(4,5), of "value"] assms(2,3)
  by (simp add: Insert_eq_while[OF assms(1)] IsFull_def)

lemma clustered_in_addressed:
  assumes inv: "table_inv h t" and a: "m_dir t ! (h key mod 2 ^ m_global_depth t) = Some a"
    and k: "k \<in> fst ` table_entries t" and c: "h k mod 2 ^ 30 = h key mod 2 ^ 30"
  shows "k \<in> fst ` set (m_list (heap t ! a))"
proof -
  from inv have g: "m_global_depth t \<le> 30" by (simp add: table_inv_def)
  from g c have "h k mod 2 ^ m_global_depth t = h key mod 2 ^ m_global_depth t"
    by (rule mod_pow_eq_le)
  with a have ak: "m_dir t ! (h k mod 2 ^ m_global_depth t) = Some a" by simp
  from k obtain v where "(k, v) \<in> table_entries t" by force
  from entry_in_addressed[OF inv this ak] show ?thesis by force
qed

section \<open>The claims\<close>

text \<open>
  Claim C5. After table construction and after every completed public operation (any
  sequence of \<open>Insert\<close>, \<open>Find\<close>, \<open>Remove\<close>), the directory length equals
  \<open>2 ^ globalDepth()\<close>.
\<close>

theorem directory_length_invariant:
  "reachable h t \<Longrightarrow> length (m_dir t) = 2 ^ GetGlobalDepth t"
  using reachable_table_inv[of h t] by (simp add: table_inv_def dir_inv_length GetGlobalDepth_def)

theorem directory_length_invariant_witness:
  "reachable ex_hash ex_table \<and> length (m_dir ex_table) = 2 ^ GetGlobalDepth ex_table"
  using directory_length_invariant[OF ex_table_reachable] ex_table_reachable by simp

text \<open>
  Claim C2. After table construction and after every completed public operation, for every
  bucket referenced by at least one directory slot (here: by slot \<open>i\<close>), the number of
  directory slots referencing it equals \<open>2 ^ (globalDepth() - localDepth)\<close>.
\<close>

theorem coverage_invariant:
  assumes "reachable h t" "i < length (m_dir t)"
  shows "\<exists>d. GetLocalDepth t (int i) = Inr d \<and> d \<le> GetGlobalDepth t \<and>
             count_list (m_dir t) (m_dir t ! i) = 2 ^ (GetGlobalDepth t - d)"
proof -
  let ?g = "m_global_depth t"
  from assms(1) have inv: "table_inv h t" by (rule reachable_table_inv)
  then have dinv: "dir_inv t" by (simp add: table_inv_def)
  from inv assms(2) obtain a where a: "m_dir t ! i = Some a"
    "GetLocalDepth t (int i) = Inr (m_depth (heap t ! a))"
    by (rule GetLocalDepth_in_range) blast
  let ?d = "m_depth (heap t ! a)"
  from dinv assms(2) obtain a' where a': "m_dir t ! i = Some a'" "m_depth (heap t ! a') \<le> ?g"
    "\<And>j. j < length (m_dir t) \<Longrightarrow>
        m_dir t ! j = Some a' \<longleftrightarrow> j mod 2 ^ m_depth (heap t ! a') = i mod 2 ^ m_depth (heap t ! a')"
    by (rule dir_invD) blast
  with a have [simp]: "a' = a" by simp
  have len: "length (m_dir t) = 2 ^ ?g" using dinv by (rule dir_inv_length)
  have "{j. j < length (m_dir t) \<and> m_dir t ! j = Some a} = {j. j < 2 ^ ?g \<and> j mod 2 ^ ?d = i mod 2 ^ ?d}"
    using a'(3) by (auto simp: len)
  then have "count_list (m_dir t) (Some a) = card {j. j < 2 ^ ?g \<and> j mod 2 ^ ?d = i mod 2 ^ ?d}"
    by (simp add: count_list_card)
  also have "\<dots> = 2 ^ (?g - ?d)"
    using a'(2) by (intro card_residue_class) simp_all
  finally show ?thesis
    using a a'(2) by (simp add: GetGlobalDepth_def)
qed

theorem coverage_invariant_witness:
  "reachable ex_hash ex_table \<and> (1::nat) < length (m_dir ex_table) \<and>
   (\<exists>d. GetLocalDepth ex_table (int 1) = Inr d \<and> d \<le> GetGlobalDepth ex_table \<and>
        count_list (m_dir ex_table) (m_dir ex_table ! 1) = 2 ^ (GetGlobalDepth ex_table - d))"
proof -
  have i: "(1::nat) < length (m_dir ex_table)" by (simp add: ex_table_def)
  show ?thesis
    using coverage_invariant[OF ex_table_reachable i] ex_table_reachable i by simp
qed

text \<open>
  Claim C1. For every key and value, and every reachable table state in which
  \<open>Insert(key, value)\<close> returns, a following \<open>Find(key)\<close> returns \<open>value\<close>.
\<close>

theorem Insert_then_Find:
  "reachable h t \<Longrightarrow> Insert h key value t = Inr t' \<Longrightarrow> Find h key v0 t' = Inr (True, value)"
  by (rule Insert_Find_same[OF _ reachable_table_inv])

theorem Insert_then_Find_witness:
  "reachable ex_hash ex_table \<and> Insert ex_hash 8 18 ex_table = Inr ex_table_8 \<and>
   Find ex_hash 8 0 ex_table_8 = Inr (True, 18)"
  using Insert_then_Find[OF ex_table_reachable ex_table_8_step, of 0] ex_table_reachable ex_table_8_step
  by simp

text \<open>
  Claim C9. For distinct keys \<open>k1\<close>, \<open>k2\<close> and every reachable state in which \<open>k1\<close> is stored
  with value \<open>v1\<close>, an \<open>Insert(k2, v2)\<close> that returns does not change the result of
  \<open>Find(k1)\<close>: \<open>k1\<close> remains findable with value \<open>v1\<close>, also when the insert doubles the
  directory and splits buckets (as it does in the witness).
\<close>

theorem Insert_keeps_other_keys:
  assumes "reachable h t" "k1 \<noteq> k2" "(k1, v1) \<in> table_entries t" "Insert h k2 v2 t = Inr t'"
  shows "Find h k1 v0 t' = Inr (True, v1) \<and> (k1, v1) \<in> table_entries t'"
proof -
  from assms(1) have inv: "table_inv h t" by (rule reachable_table_inv)
  from assms(4) inv have inv': "table_inv h t'" by (rule Insert_table_inv)
  have "Find h k1 v0 t' = Find h k1 v0 t"
    using assms(4) inv assms(2) by (rule Insert_Find_other)
  also have "\<dots> = Inr (True, v1)" using inv assms(3) by (rule Find_present)
  finally show ?thesis using Find_True_entry[OF inv'] by simp
qed

theorem Insert_keeps_other_keys_witness:
  "reachable ex_hash ex_table \<and> (4::nat) \<noteq> 8 \<and> (4, 14) \<in> table_entries ex_table \<and>
   Insert ex_hash 8 18 ex_table = Inr ex_table_8 \<and>
   Find ex_hash 4 0 ex_table_8 = Inr (True, 14) \<and> (4, 14) \<in> table_entries ex_table_8"
proof -
  have ne: "(4::nat) \<noteq> 8" by simp
  have e: "(4, 14) \<in> table_entries ex_table" by (simp add: table_entries_def ex_table_def)
  show ?thesis
    using Insert_keeps_other_keys[OF ex_table_reachable ne e ex_table_8_step, of 0]
      ex_table_reachable e ex_table_8_step by simp
qed



text \<open>
  Claim C7. In every reachable state: after an \<open>Insert(key, value)\<close> that returns,
  \<open>Remove(key)\<close> returns true and a following \<open>Find(key)\<close> reports the key absent (and
  leaves the output parameter as it was); and \<open>Remove(key)\<close> for a key that is not in the
  table returns false and leaves the whole table state unchanged.
\<close>

theorem Remove_semantics:
  assumes "reachable h t"
  shows "(\<forall>value t1. Insert h key value t = Inr t1 \<longrightarrow>
            (\<exists>t2. Remove h key t1 = Inr (True, t2) \<and> Find h key v0 t2 = Inr (False, v0))) \<and>
         (key \<notin> fst ` table_entries t \<longrightarrow> Remove h key t = Inr (False, t))"
proof (intro conjI allI impI)
  from assms have inv: "table_inv h t" by (rule reachable_table_inv)
  {
    fix "value" t1
    assume ins: "Insert h key value t = Inr t1"
    from ins inv have inv1: "table_inv h t1" by (rule Insert_table_inv)
    from ins inv have f: "Find h key v0 t1 = Inr (True, value)" by (rule Insert_Find_same)
    from inv1 obtain a where a: "m_dir t1 ! (h key mod 2 ^ m_global_depth t1) = Some a"
      "Remove h key t1 = Inr (fst (Bucket_Remove key (heap t1 ! a)),
                           t1\<lparr>heap := (heap t1)[a := snd (Bucket_Remove key (heap t1 ! a))]\<rparr>)"
      by (rule Remove_Inr[where h=h and key=key]) blast
    from inv1 obtain a' where a': "m_dir t1 ! (h key mod 2 ^ m_global_depth t1) = Some a'"
      "Find h key v0 t1 = Inr (find_scan key v0 (m_list (heap t1 ! a')))"
      "distinct (map fst (m_list (heap t1 ! a')))"
      by (rule table_inv_Find[where h=h and key=key]) blast
    with a have [simp]: "a' = a" by simp
    obtain r b' where br: "Bucket_Remove key (heap t1 ! a) = (r, b')" by fastforce
    note rf = Bucket_Remove_facts[OF br]
    from f a'(2) have "key \<in> fst ` set (m_list (heap t1 ! a))"
      using find_scan_found[of key v0 "m_list (heap t1 ! a)"] by simp
    with rf(3) have r: "r" by simp
    from rf(6) a'(3) have "key \<notin> fst ` set (m_list b')" by simp
    then have "Find h key v0 (t1\<lparr>heap := (heap t1)[a := b']\<rparr>) = Inr (False, v0)"
      using Find_store[OF inv1 a(1), of b' key v0] rf(1) a(1) by (simp add: find_scan_absent)
    with a(2) br r
    show "\<exists>t2. Remove h key t1 = Inr (True, t2) \<and> Find h key v0 t2 = Inr (False, v0)"
      by simp
  }
  {
    assume absent: "key \<notin> fst ` table_entries t"
    from inv obtain a where a: "m_dir t ! (h key mod 2 ^ m_global_depth t) = Some a"
      "Remove h key t = Inr (fst (Bucket_Remove key (heap t ! a)),
                           t\<lparr>heap := (heap t)[a := snd (Bucket_Remove key (heap t ! a))]\<rparr>)"
      by (rule Remove_Inr[where h=h and key=key]) blast
    obtain r b' where br: "Bucket_Remove key (heap t ! a) = (r, b')" by fastforce
    note rf = Bucket_Remove_facts[OF br]
    from addressed_in_entries[OF inv a(1)] absent have "key \<notin> fst ` set (m_list (heap t ! a))"
      by blast
    with rf(3,4) have "\<not> r" "b' = heap t ! a" by simp_all
    with a(2) br show "Remove h key t = Inr (False, t)" by simp
  }
qed

theorem Remove_semantics_witness:
  "reachable ex_hash ex_table \<and> Insert ex_hash 8 18 ex_table = Inr ex_table_8 \<and>
   Remove ex_hash 8 ex_table_8 = Inr (True, ex_table_8_removed) \<and>
   Find ex_hash 8 0 ex_table_8_removed = Inr (False, 0) \<and>
   7 \<notin> fst ` table_entries ex_table \<and> Remove ex_hash 7 ex_table = Inr (False, ex_table)"
proof -
  have r: "Remove ex_hash 8 ex_table_8 = Inr (True, ex_table_8_removed)" by code_simp
  have a: "7 \<notin> fst ` table_entries ex_table" by (simp add: table_entries_def ex_table_def)
  from Remove_semantics[OF ex_table_reachable, of 8 0] ex_table_8_step
  obtain t2 where "Remove ex_hash 8 ex_table_8 = Inr (True, t2)" "Find ex_hash 8 0 t2 = Inr (False, 0)"
    by blast
  with r have f: "Find ex_hash 8 0 ex_table_8_removed = Inr (False, 0)" by simp
  show ?thesis
    using Remove_semantics[OF ex_table_reachable, of 7 0] ex_table_reachable ex_table_8_step r a f
    by simp
qed

text \<open>
  Claim C10. In every reachable state, for a key absent from the table \<open>Find(key, value)\<close>
  returns false and leaves the caller's \<open>value\<close> unchanged; the output parameter is
  written only when the key is found, and then it receives the stored value.
\<close>

theorem Find_output_parameter:
  assumes "reachable h t"
  shows "(key \<notin> fst ` table_entries t \<longrightarrow> Find h key value t = Inr (False, value)) \<and>
         (\<forall>v. (key, v) \<in> table_entries t \<longrightarrow> Find h key value t = Inr (True, v))"
  using reachable_table_inv[OF assms] by (simp add: Find_absent Find_present)

theorem Find_output_parameter_witness:
  "reachable ex_hash ex_table \<and>
   7 \<notin> fst ` table_entries ex_table \<and> Find ex_hash 7 99 ex_table = Inr (False, 99) \<and>
   (2, 12) \<in> table_entries ex_table \<and> Find ex_hash 2 99 ex_table = Inr (True, 12)"
proof -
  have a: "7 \<notin> fst ` table_entries ex_table" "(2, 12) \<in> table_entries ex_table"
    by (simp_all add: table_entries_def ex_table_def)
  show ?thesis
    using Find_output_parameter[OF ex_table_reachable, of 7 99]
      Find_output_parameter[OF ex_table_reachable, of 2 99] ex_table_reachable a
    by simp
qed

text \<open>
  Claim C8, as amended. With an index inside the directory bounds, \<open>GetLocalDepth(dir_index)\<close>
  returns the local depth of the bucket referenced by that directory slot. With an index
  outside the bounds (negative, or at least the directory length) the code reads
  \<open>dir_[dir_index]\<close> without any check: the behaviour is undefined, and no \<open>InvalidIndex\<close>
  error exists in the code. (\<open>dir_index\<close> is an \<open>int\<close> of 32 bits.)
\<close>

theorem GetLocalDepth_semantics:
  assumes "reachable h t" "- (2 ^ 31) \<le> dir_index" "dir_index < 2 ^ 31"
  shows "GetLocalDepth t dir_index =
           (if 0 \<le> dir_index \<and> dir_index < int (length (m_dir t))
            then Inr (m_depth (heap t ! the (m_dir t ! nat dir_index)))
            else Inl UndefinedIndexing)"
proof (cases "0 \<le> dir_index \<and> dir_index < int (length (m_dir t))")
  case True
  from assms(1) have inv: "table_inv h t" by (rule reachable_table_inv)
  from True have i: "nat dir_index < length (m_dir t)" by linarith
  from inv i obtain a where "m_dir t ! nat dir_index = Some a"
    "GetLocalDepth t (int (nat dir_index)) = Inr (m_depth (heap t ! a))"
    by (rule GetLocalDepth_in_range) blast
  with True show ?thesis by simp
next
  case False
  from assms(1) have inv: "table_inv h t" by (rule reachable_table_inv)
  then have "length (m_dir t) = 2 ^ m_global_depth t" "m_global_depth t < 31"
    by (simp_all add: table_inv_def dir_inv_length)
  moreover have "(2::nat) ^ m_global_depth t \<le> 2 ^ 31" if "m_global_depth t < 31"
    using that by (intro power_increasing) simp_all
  ultimately have len: "length (m_dir t) \<le> 2 ^ 31" by simp
  have "\<not> size_t_of_int dir_index < length (m_dir t)"
  proof (cases "0 \<le> dir_index")
    case True
    with assms(3) have "size_t_of_int dir_index = nat dir_index"
      by (simp add: size_t_of_int_def)
    with True False show ?thesis by simp
  next
    case neg: False
    have "(dir_index + 2 ^ 64) mod 2 ^ 64 = dir_index + 2 ^ 64"
      using assms(2) neg by (intro mod_pos_pos_trivial) simp_all
    then have "dir_index mod 2 ^ 64 = dir_index + 2 ^ 64" by simp
    with assms(2) have "size_t_of_int dir_index \<ge> 2 ^ 63"
      by (simp add: size_t_of_int_def)
    with len show ?thesis by simp
  qed
  with False show ?thesis by (simp add: GetLocalDepth_def vec_at_def)
qed

theorem GetLocalDepth_semantics_witness:
  "reachable ex_hash ex_table \<and> GetLocalDepth ex_table 2 = Inr 2"
  using GetLocalDepth_semantics[OF ex_table_reachable, of 2] ex_table_reachable
  by (simp add: ex_table_def)

theorem GetLocalDepth_counterexample:
  "GetLocalDepth ex_table 4 = Inl UndefinedIndexing \<and>
   GetLocalDepth ex_table (- 1) = Inl UndefinedIndexing"
  by (simp add: GetLocalDepth_def vec_at_def size_t_of_int_def ex_table_def)

text \<open>
  Claim C4. \<open>Insert\<close> calls \<open>SplitBucket\<close> when the bucket addressed by the key rejects
  the insertion, after doubling the directory if needed (\<open>pre_split\<close>); \<open>table_inv\<close> holds
  in every reachable state and at every iteration of that loop. With \<open>d\<close> the incremented
  local depth, \<open>prefixMask = (1 << d) - 1\<close> and \<open>addressPrefix = prefixMask & index\<close>, where
  \<open>index\<close> is the directory index of the inserted key, every item of the split bucket is
  placed into exactly one of the two fresh buckets: into \<open>hiBucket\<close> if
  \<open>(hash(key) & prefixMask) == addressPrefix\<close>, else into \<open>loBucket\<close>, in the old order;
  nothing is dropped and nothing duplicated.
\<close>

theorem SplitBucket_partition:
  assumes "table_inv h t" and "m_dir t ! (h key mod 2 ^ m_global_depth t) = Some a"
    and "Bucket_Insert key value (heap t ! a) = (False, b)"
    and "SplitBucket h key (pre_split t a) = Inr t'"
  shows "\<exists>index. IndexOf h key (pre_split t a) = Inr index \<and>
           (let d = m_depth (heap t ! a) + 1;
                prefixMask = push_bit d 1 - 1;
                addressPrefix = prefixMask AND index;
                loBucket = length (heap t);
                hiBucket = length (heap t) + 1;
                old = m_list (heap t ! a)
            in IsFull (heap t ! a) \<and>
               length (heap t') = length (heap t) + 2 \<and>
               m_depth (heap t' ! a) = d \<and>
               m_depth (heap t' ! loBucket) = d \<and> m_depth (heap t' ! hiBucket) = d \<and>
               m_list (heap t' ! hiBucket) = filter (\<lambda>it. h (fst it) AND prefixMask = addressPrefix) old \<and>
               m_list (heap t' ! loBucket) = filter (\<lambda>it. h (fst it) AND prefixMask \<noteq> addressPrefix) old \<and>
               length (m_list (heap t' ! hiBucket)) + length (m_list (heap t' ! loBucket)) = length old)"
proof -
  let ?p = "pre_split t a"
  let ?idx = "h key mod 2 ^ m_global_depth ?p"
  let ?d = "m_depth (heap t ! a) + 1"
  from assms(1) have dinv: "dir_inv t" by (simp add: table_inv_def)
  note s = SplitBucket_pre_split[where h=h and key=key, OF dinv assms(2,4)]
  from assms(1) obtain a' where a': "m_dir t ! (h key mod 2 ^ m_global_depth t) = Some a'"
    "a' < length (heap t)"
    "length (m_list (heap t ! a')) \<le> m_bucket_size t" "distinct (map fst (m_list (heap t ! a')))"
    by (rule table_inv_addressed[where h=h and key=key]) blast
  with assms(2) have [simp]: "a' = a" by simp
  from a' have aL: "a < length (heap ?p)" and sz: "length (m_list (heap ?p ! a)) \<le> m_bucket_size ?p"
    and dist: "distinct (map fst (m_list (heap ?p ! a)))" by simp_all
  note lists = split_state_lists[OF aL dist sz, of h ?idx, folded s(1)]
  have g: "m_global_depth ?p < 31" using s(3) by (simp add: s(1))
  then have idx: "IndexOf h key ?p = Inr ?idx" by (simp add: IndexOf_Inr)
  have full: "IsFull (heap t ! a)"
    using assms(3) by (simp add: Bucket_Insert_False IsFull_def)
  have dep: "m_depth (heap t' ! a) = ?d" "m_depth (heap t' ! length (heap t)) = ?d"
    "m_depth (heap t' ! (length (heap t) + 1)) = ?d"
    unfolding s(1) using aL by (simp_all add: split_state_depth)
  have len: "length (heap t') = length (heap t) + 2" by (simp add: s(1))
  have "length (filter (\<lambda>it. h (fst it) mod 2 ^ ?d = ?idx mod 2 ^ ?d) (m_list (heap t ! a))) +
        length (filter (\<lambda>it. h (fst it) mod 2 ^ ?d \<noteq> ?idx mod 2 ^ ?d) (m_list (heap t ! a))) =
        length (m_list (heap t ! a))"
    by (rule sum_length_filter_compl)
  with lists full dep len idx show ?thesis
    by (simp add: Let_def and_push_bit_mod push_bit_and_mod del: power_Suc)
qed

theorem SplitBucket_partition_witness:
  "table_inv ex_hash ex_table \<and> m_dir ex_table ! (ex_hash 8 mod 2 ^ m_global_depth ex_table) = Some 4 \<and>
   Bucket_Insert 8 18 (heap ex_table ! 4) = (False, heap ex_table ! 4) \<and>
   SplitBucket ex_hash 8 (pre_split ex_table 4) = Inr ex_table_split \<and>
   m_list (heap ex_table_split ! 6) = [(0, 10)] \<and> m_list (heap ex_table_split ! 5) = [(4, 14)]"
proof -
  have inv: "table_inv ex_hash ex_table" using ex_table_reachable by (rule reachable_table_inv)
  have a: "m_dir ex_table ! (ex_hash 8 mod 2 ^ m_global_depth ex_table) = Some 4"
    by (simp add: ex_table_def ex_hash_def)
  have b: "Bucket_Insert 8 18 (heap ex_table ! 4) = (False, heap ex_table ! 4)"
    by (simp add: ex_table_def Bucket_Insert_def IsFull_def)
  have s: "SplitBucket ex_hash 8 (pre_split ex_table 4) = Inr ex_table_split"
    by code_simp
  show ?thesis
    using SplitBucket_partition[OF inv a b s] inv a b s
    by (simp add: ex_table_split_def)
qed

text \<open>
  Claim C3, as amended. When a reachable table already holds at least \<open>bucket_size_\<close> keys
  that agree with a new key on the low 30 bits of their hashes (the \<open>int\<close> mask of
  \<open>IndexOf\<close> allows a global depth of at most 30), inserting the new key, one more than
  the bucket capacity, does not complete and reports no \<open>DepthExhausted\<close> failure: the code
  has neither a depth bound nor such a failure. \<open>isl r\<close> says that the result \<open>r\<close> is not a
  returned table. What cuts the call off lies outside the loop: a failed allocation when
  the directory is doubled, or, where memory suffices, the undefined mask at depth 31. The
  counterexample inserts a third such key into a table with buckets of capacity 2.
\<close>

theorem Insert_clustered_keys:
  assumes "reachable h t" and "key \<notin> fst ` table_entries t"
    and "m_bucket_size t \<le> card {k \<in> fst ` table_entries t. h k mod 2 ^ 30 = h key mod 2 ^ 30}"
  shows "isl (Insert h key value t)"
proof -
  let ?S = "{k \<in> fst ` table_entries t. h k mod 2 ^ 30 = h key mod 2 ^ 30}"
  from assms(1) have inv: "table_inv h t" by (rule reachable_table_inv)
  from inv obtain a where a: "m_dir t ! (h key mod 2 ^ m_global_depth t) = Some a"
    "m_size (heap t ! a) = m_bucket_size t" "length (m_list (heap t ! a)) \<le> m_bucket_size t"
    "distinct (map fst (m_list (heap t ! a)))"
    by (rule table_inv_addressed[where h=h and key=key]) blast
  let ?K = "fst ` set (m_list (heap t ! a))"
  have sub: "?S \<subseteq> ?K"
    using clustered_in_addressed[OF inv a(1)] by blast
  have cardK: "card ?K = length (m_list (heap t ! a))"
    using a(4) distinct_card[of "map fst (m_list (heap t ! a))"] by simp
  have "card ?S \<le> card ?K" using sub by (intro card_mono) simp_all
  with assms(3) a(3) cardK have eq: "card ?S = card ?K" and full: "length (m_list (heap t ! a)) = m_bucket_size t"
    by simp_all
  from sub eq have "?S = ?K" by (intro card_subset_eq) simp_all
  then have coll: "\<forall>it \<in> set (m_list (heap t ! a)). h (fst it) mod 2 ^ 30 = h key mod 2 ^ 30"
    by blast
  have notin: "key \<notin> ?K"
    using addressed_in_entries[OF inv a(1)] assms(2) by blast
  have "IsFull (heap t ! a)" using full a(2) by (simp add: IsFull_def)
  with inv a(1) have "Insert h key value t = Inl UndefinedShift"
    using notin coll by (rule Insert_clustered)
  then show ?thesis by simp
qed

theorem Insert_clustered_keys_witness:
  "reachable ex_hash ex_single \<and> 5 + 2 ^ 30 \<notin> fst ` table_entries ex_single \<and>
   m_bucket_size ex_single = 1 \<and>
   {k \<in> fst ` table_entries ex_single. ex_hash k mod 2 ^ 30 = ex_hash (5 + 2 ^ 30) mod 2 ^ 30} = {5} \<and>
   isl (Insert ex_hash (5 + 2 ^ 30) 51 ex_single)"
proof -
  have n: "5 + 2 ^ 30 \<notin> fst ` table_entries ex_single"
    by (simp add: table_entries_def ex_single_def)
  have b: "m_bucket_size ex_single = 1" by (simp add: ex_single_def)
  have c: "{k \<in> fst ` table_entries ex_single. ex_hash k mod 2 ^ 30 = ex_hash (5 + 2 ^ 30) mod 2 ^ 30} = {5}"
    by (auto simp: table_entries_def ex_single_def ex_hash_def)
  have "m_bucket_size ex_single \<le>
          card {k \<in> fst ` table_entries ex_single. ex_hash k mod 2 ^ 30 = ex_hash (5 + 2 ^ 30) mod 2 ^ 30}"
    unfolding c b by simp
  from Insert_clustered_keys[OF ex_single_reachable n this, of 51] ex_single_reachable n b c
  show ?thesis by simp
qed

theorem Insert_DepthExhausted_counterexample:
  "reachable ex_hash ex_clustered \<and>
   m_list (heap ex_clustered ! 0) = [(0, 1), (2 ^ 30, 2)] \<and> m_bucket_size ex_clustered = 2 \<and>
   ex_hash 0 mod 2 ^ 30 = ex_hash (2 ^ 31) mod 2 ^ 30 \<and>
   ex_hash (2 ^ 30) mod 2 ^ 30 = ex_hash (2 ^ 31) mod 2 ^ 30 \<and>
   isl (Insert ex_hash (2 ^ 31) 3 ex_clustered)"
proof -
  have inv: "table_inv ex_hash ex_clustered"
    using ex_clustered_reachable by (rule reachable_table_inv)
  have a: "m_dir ex_clustered ! (ex_hash (2 ^ 31) mod 2 ^ m_global_depth ex_clustered) = Some 0"
    by (simp add: ex_clustered_def)
  have f: "IsFull (heap ex_clustered ! 0)" by (simp add: ex_clustered_def IsFull_def)
  have n: "2 ^ 31 \<notin> fst ` set (m_list (heap ex_clustered ! 0))" by (simp add: ex_clustered_def)
  have c: "\<forall>it \<in> set (m_list (heap ex_clustered ! 0)).
             ex_hash (fst it) mod 2 ^ 30 = ex_hash (2 ^ 31) mod 2 ^ 30"
    by (simp add: ex_clustered_def ex_hash_def)
  have "Insert ex_hash (2 ^ 31) 3 ex_clustered = Inl UndefinedShift"
    using inv a f n c by (rule Insert_clustered)
  then show ?thesis
    using ex_clustered_reachable by (simp add: ex_clustered_def ex_hash_def)
qed

end
